theory Spec2Isabelle
  imports
    Main
    "HOL-Library.Char_ord"
    "HOL-Library.List_Lexorder"
    "HOL-Library.Multiset"
begin

section \<open>Values\<close>

text \<open>
  The event dictionaries of \<^verbatim>\<open>core/crypto.py\<close> are Python dictionaries with string
  keys whose values are JSON data: \<^verbatim>\<open>None\<close>, booleans, integers, strings, lists and
  nested dictionaries. A Python \<^verbatim>\<open>dict\<close> keeps its keys in insertion order and holds
  each key once, so it is an association list with distinct keys. Python strings are
  sequences of code points; a \<^typ>\<open>char\<close> stands for a code point below 256.
  Floating point values are not part of the model.
\<close>

datatype json =
    JNull
  | JBool bool
  | JInt int
  | JStr string
  | JArr "json list"
  | JObj "(string \<times> json) list"

type_synonym pydict = "(string \<times> json) list"

type_synonym bytes = string

text \<open>\<^verbatim>\<open>d.get(k)\<close> is \<^verbatim>\<open>None\<close> when the key is absent.\<close>

definition dict_get :: "pydict \<Rightarrow> string \<Rightarrow> json" where
  "dict_get d k = (case map_of d k of None \<Rightarrow> JNull | Some v \<Rightarrow> v)"

text \<open>\<^verbatim>\<open>d.get(k, default)\<close>.\<close>

definition dict_get_default :: "pydict \<Rightarrow> string \<Rightarrow> json \<Rightarrow> json" where
  "dict_get_default d k dflt = (case map_of d k of None \<Rightarrow> dflt | Some v \<Rightarrow> v)"

text \<open>\<^verbatim>\<open>d.pop(k, None)\<close>, as the dictionary that is left.\<close>

definition dict_pop :: "string \<Rightarrow> pydict \<Rightarrow> pydict" where
  "dict_pop k d = filter (\<lambda>kv. fst kv \<noteq> k) d"

text \<open>
  \<^verbatim>\<open>d[k] = v\<close>: an existing key keeps its position and gets the new value, a new
  key goes to the end.
\<close>

fun dict_setitem :: "string \<Rightarrow> json \<Rightarrow> pydict \<Rightarrow> pydict" where
  "dict_setitem k v [] = [(k, v)]"
| "dict_setitem k v (p # ps) =
     (if fst p = k then (k, v) # ps else p # dict_setitem k v ps)"

text \<open>Python's truth value of a JSON datum (\<^verbatim>\<open>if not x\<close>).\<close>

fun truthy :: "json \<Rightarrow> bool" where
  "truthy JNull = False"
| "truthy (JBool b) = b"
| "truthy (JInt i) = (i \<noteq> 0)"
| "truthy (JStr s) = (s \<noteq> [])"
| "truthy (JArr vs) = (vs \<noteq> [])"
| "truthy (JObj kvs) = (kvs \<noteq> [])"

section \<open>Canonical JSON\<close>

text \<open>
  \<^verbatim>\<open>json.dumps(obj, sort_keys=True, separators=(',', ':'))\<close> of the standard library:
  the items of every dictionary sorted by key, no white space, and (the default
  \<^verbatim>\<open>ensure_ascii=True\<close>) every character outside the printable ASCII range written as
  an escape, so that the text is ASCII.
\<close>

definition digit_char :: "nat \<Rightarrow> char" where
  "digit_char d = ''0123456789abcdef'' ! d"

function nat_digits :: "nat \<Rightarrow> string" where
  "nat_digits n = (if n < 10 then [digit_char n] else nat_digits (n div 10) @ [digit_char (n mod 10)])"
  by pat_completeness auto
termination
  by (relation "measure (\<lambda>n. n)") auto

definition int_repr :: "int \<Rightarrow> string" where
  "int_repr i = (if i < 0 then CHR ''-'' # nat_digits (nat (- i)) else nat_digits (nat i))"

definition hex4 :: "nat \<Rightarrow> string" where
  "hex4 n = [digit_char (n div 4096 mod 16), digit_char (n div 256 mod 16),
             digit_char (n div 16 mod 16), digit_char (n mod 16)]"

definition escape_char :: "char \<Rightarrow> string" where
  "escape_char c =
     (if c = CHR 0x5C then [CHR 0x5C, CHR 0x5C]
      else if c = CHR 0x22 then [CHR 0x5C, CHR 0x22]
      else if c = CHR 0x08 then [CHR 0x5C, CHR ''b'']
      else if c = CHR 0x0C then [CHR 0x5C, CHR ''f'']
      else if c = CHR 0x0A then [CHR 0x5C, CHR ''n'']
      else if c = CHR 0x0D then [CHR 0x5C, CHR ''r'']
      else if c = CHR 0x09 then [CHR 0x5C, CHR ''t'']
      else if (of_char c :: nat) < 32 \<or> 126 < (of_char c :: nat)
        then [CHR 0x5C, CHR ''u''] @ hex4 (of_char c)
      else [c])"

definition encode_basestring_ascii :: "string \<Rightarrow> string" where
  "encode_basestring_ascii s = [CHR 0x22] @ concat (map escape_char s) @ [CHR 0x22]"

fun join :: "string \<Rightarrow> string list \<Rightarrow> string" where
  "join sep [] = []"
| "join sep [x] = x"
| "join sep (x # y # ys) = x @ sep @ join sep (y # ys)"

function json_dumps :: "json \<Rightarrow> string" where
  "json_dumps JNull = ''null''"
| "json_dumps (JBool b) = (if b then ''true'' else ''false'')"
| "json_dumps (JInt i) = int_repr i"
| "json_dumps (JStr s) = encode_basestring_ascii s"
| "json_dumps (JArr vs) = ''['' @ join '','' (map json_dumps vs) @ '']''"
| "json_dumps (JObj kvs) =
     ''{'' @ join '',''
        (map (\<lambda>kv. encode_basestring_ascii (fst kv) @ '':'' @ json_dumps (snd kv))
          (sort_key fst kvs)) @ ''}''"
  by pat_completeness auto
termination
proof (relation "measure size")
  show "wf (measure (size :: json \<Rightarrow> nat))" by simp
next
  fix vs :: "json list" and x
  assume "x \<in> set vs"
  then have "size x \<le> size_list size vs"
    by (simp add: size_list_estimation')
  then show "(x, JArr vs) \<in> measure size" by simp
next
  fix kvs :: "(string \<times> json) list" and x
  assume "x \<in> set (sort_key fst kvs)"
  then have "x \<in> set kvs" by simp
  then have "size_prod (\<lambda>_. 0) size x \<le> size_list (size_prod (\<lambda>_. 0) size) kvs"
    by (simp add: size_list_estimation')
  then show "(snd x, JObj kvs) \<in> measure size"
    by (cases x) simp
qed

text \<open>\<^verbatim>\<open>str.encode('utf-8')\<close> for code points below 256.\<close>

definition utf8_encode :: "string \<Rightarrow> bytes" where
  "utf8_encode s =
     concat (map (\<lambda>c. if (of_char c :: nat) < 128 then [c]
                       else [char_of (192 + (of_char c :: nat) div 64),
                             char_of (128 + (of_char c :: nat) mod 64)]) s)"

section \<open>Primitives of the libraries\<close>

text \<open>
  SHA-256 (\<^verbatim>\<open>hashlib\<close>), the Base64 encoder (\<^verbatim>\<open>base64.b64encode\<close>) and Ed25519
  (\<^verbatim>\<open>cryptography\<close>) are functions of libraries, not of this repository: the model
  takes them as parameters. \<open>ed25519_verify pk sg data\<close> is \<open>False\<close> where
  \<^verbatim>\<open>Ed25519PublicKey.verify\<close> raises \<^verbatim>\<open>InvalidSignature\<close>.
\<close>

record primitives =
  sha256 :: "bytes \<Rightarrow> bytes"
  b64encode :: "bytes \<Rightarrow> string"
  ed25519_sign :: "bytes \<Rightarrow> bytes \<Rightarrow> bytes"
  ed25519_verify :: "bytes \<Rightarrow> bytes \<Rightarrow> bytes \<Rightarrow> bool"

datatype exn =
    ValueError | TypeError | BinasciiError | InvalidSignature | FileExistsError | NotADirectoryError

record KeyPair =
  private_key :: bytes
  public_key :: bytes

subsection \<open>Base64 decoding\<close>

text \<open>
  Which signature texts verification accepts depends on what the decoder does with
  text that is not Base64, so \<^verbatim>\<open>base64.b64decode(s)\<close> is modelled as the standard
  library of CPython 3.11 computes it for a string \<open>s\<close>, with its defaults
  \<^verbatim>\<open>altchars=None\<close> and \<^verbatim>\<open>validate=False\<close>: the string is encoded as ASCII (a
  \<^verbatim>\<open>ValueError\<close> if it has a character outside ASCII) and handed to
  \<^verbatim>\<open>binascii.a2b_base64\<close>.

  \<open>b64_value\<close> is the table \<^verbatim>\<open>table_a2b_base64\<close>: the six bits of a character of the
  alphabet \<^verbatim>\<open>A-Z a-z 0-9 + /\<close>, and \<open>None\<close> for every other character.
\<close>

definition b64_value :: "char \<Rightarrow> nat option" where
  "b64_value c =
     (let n = (of_char c :: nat) in
      if 65 \<le> n \<and> n \<le> 90 then Some (n - 65)
      else if 97 \<le> n \<and> n \<le> 122 then Some (n - 71)
      else if 48 \<le> n \<and> n \<le> 57 then Some (n + 4)
      else if n = 43 then Some 62
      else if n = 47 then Some 63
      else None)"

text \<open>
  The loop of \<^verbatim>\<open>a2b_base64\<close> without \<^verbatim>\<open>strict_mode\<close>, on the characters left to read,
  with its variables: \<open>quad_pos\<close>, the position in the group of four characters;
  \<open>leftchar\<close>, the bits of the group not written yet; \<open>pads\<close>, the \<^verbatim>\<open>=\<close> seen since
  the last character of the alphabet; \<open>bin_data\<close>, the bytes written. A character
  outside the alphabet is skipped. A \<^verbatim>\<open>=\<close> ends the decoding when it completes a group
  that has at least two characters, and is skipped otherwise. At the end of the text
  an incomplete group is a \<^verbatim>\<open>binascii.Error\<close>. The shifts of the C code are written
  as multiplications and divisions: \<open>leftchar\<close> holds 6, 4 and 2 bits at the positions
  1, 2 and 3, so every byte written is below 256.
\<close>

fun a2b_base64 :: "string \<Rightarrow> nat \<Rightarrow> nat \<Rightarrow> nat \<Rightarrow> bytes \<Rightarrow> exn + bytes" where
  "a2b_base64 [] quad_pos leftchar pads bin_data =
     (if quad_pos \<noteq> 0 then Inl BinasciiError else Inr bin_data)"
| "a2b_base64 (c # cs) quad_pos leftchar pads bin_data =
     (if c = CHR ''='' then
        (if 2 \<le> quad_pos \<and> 4 \<le> quad_pos + (pads + 1) then Inr bin_data
         else a2b_base64 cs quad_pos leftchar (if 2 \<le> quad_pos then pads + 1 else pads)
                bin_data)
      else
        (case b64_value c of
           None \<Rightarrow> a2b_base64 cs quad_pos leftchar pads bin_data
         | Some this_ch \<Rightarrow>
             (if quad_pos = 0 then a2b_base64 cs 1 this_ch 0 bin_data
              else if quad_pos = 1 then
                a2b_base64 cs 2 (this_ch mod 16) 0
                  (bin_data @ [char_of (leftchar * 4 + this_ch div 16)])
              else if quad_pos = 2 then
                a2b_base64 cs 3 (this_ch mod 4) 0
                  (bin_data @ [char_of (leftchar * 16 + this_ch div 4)])
              else
                a2b_base64 cs 0 0 0 (bin_data @ [char_of (leftchar * 64 + this_ch)]))))"

definition b64decode :: "string \<Rightarrow> exn + bytes" where
  "b64decode s =
     (if \<exists>c \<in> set s. 128 \<le> (of_char c :: nat) then Inl ValueError
      else a2b_base64 s 0 0 0 [])"

text \<open>
  The characters the decoder reads over: those of ASCII that are neither in the
  alphabet nor \<^verbatim>\<open>=\<close>.
\<close>

definition b64_discarded :: "char \<Rightarrow> bool" where
  "b64_discarded c \<longleftrightarrow> c \<noteq> CHR ''='' \<and> b64_value c = None \<and> (of_char c :: nat) < 128"

section \<open>Signatures (\<^verbatim>\<open>core/crypto.py\<close>)\<close>

text \<open>\<^verbatim>\<open>KeyPair.sign\<close>: the Base64 text of the signature.\<close>

definition KeyPair_sign :: "primitives \<Rightarrow> KeyPair \<Rightarrow> bytes \<Rightarrow> string" where
  "KeyPair_sign P keypair data = b64encode P (ed25519_sign P (private_key keypair) data)"

text \<open>\<^verbatim>\<open>Ed25519PublicKey.from_public_bytes\<close> raises unless the key has 32 bytes.\<close>

definition from_public_bytes :: "bytes \<Rightarrow> exn + bytes" where
  "from_public_bytes public_key_bytes =
     (if length public_key_bytes \<noteq> 32 then Inl ValueError else Inr public_key_bytes)"

text \<open>
  \<^verbatim>\<open>base64.b64decode\<close> of a value that reaches it from an event dictionary: anything but
  a string is a \<^verbatim>\<open>TypeError\<close>.
\<close>

definition b64decode_value :: "json \<Rightarrow> exn + bytes" where
  "b64decode_value v = (case v of JStr s \<Rightarrow> b64decode s | _ \<Rightarrow> Inl TypeError)"

definition public_key_verify :: "primitives \<Rightarrow> bytes \<Rightarrow> bytes \<Rightarrow> bytes \<Rightarrow> exn + unit" where
  "public_key_verify P pk signature_bytes data =
     (if ed25519_verify P pk signature_bytes data then Inr () else Inl InvalidSignature)"

text \<open>The body of the \<^verbatim>\<open>try\<close> of \<^verbatim>\<open>verify_signature_with_public_key\<close>.\<close>

definition verify_signature_try :: "primitives \<Rightarrow> bytes \<Rightarrow> json \<Rightarrow> bytes \<Rightarrow> exn + bool" where
  "verify_signature_try P data signature public_key_bytes =
     (case from_public_bytes public_key_bytes of
        Inl e \<Rightarrow> Inl e
      | Inr pk \<Rightarrow>
          (case b64decode_value signature of
             Inl e \<Rightarrow> Inl e
           | Inr signature_bytes \<Rightarrow>
               (case public_key_verify P pk signature_bytes data of
                  Inl e \<Rightarrow> Inl e
                | Inr _ \<Rightarrow> Inr True)))"

text \<open>\<^verbatim>\<open>except (InvalidSignature, Exception): return False\<close>.\<close>

definition verify_signature_with_public_key ::
    "primitives \<Rightarrow> bytes \<Rightarrow> json \<Rightarrow> bytes \<Rightarrow> bool" where
  "verify_signature_with_public_key P data signature public_key_bytes =
     (case verify_signature_try P data signature public_key_bytes of
        Inl e \<Rightarrow> False
      | Inr b \<Rightarrow> b)"

text \<open>
  \<^verbatim>\<open>compute_event_hash\<close> and \<^verbatim>\<open>verify_event_signature\<close> copy the dictionary they
  are given, remove \<^verbatim>\<open>signature\<close> from the copy and drop the copy when they return, so
  they are functions of the value of the dictionary. In \<^verbatim>\<open>verify_event_signature\<close>
  nothing of the body raises on JSON data, and its \<^verbatim>\<open>try\<close> has nothing to catch.
\<close>

definition canonical_json :: "pydict \<Rightarrow> string" where
  "canonical_json event_copy = json_dumps (JObj event_copy)"

definition compute_event_hash :: "primitives \<Rightarrow> pydict \<Rightarrow> string" where
  "compute_event_hash P event_dict =
     (let event_copy = dict_pop ''signature'' event_dict;
          hash_bytes = sha256 P (utf8_encode (canonical_json event_copy))
      in b64encode P hash_bytes)"

definition verify_event_signature :: "primitives \<Rightarrow> pydict \<Rightarrow> bytes \<Rightarrow> bool" where
  "verify_event_signature P event_dict public_key_bytes =
     (let signature = dict_get event_dict ''signature'' in
      if \<not> truthy signature then False
      else
        let event_copy = dict_pop ''signature'' event_dict
        in verify_signature_with_public_key P
             (utf8_encode (canonical_json event_copy)) signature public_key_bytes)"

subsection \<open>Signing, on a store of dictionaries\<close>

text \<open>
  \<^verbatim>\<open>sign_event\<close> receives a reference to a dictionary, copies it and changes the copy.
  The store is the list of the dictionaries allocated so far, a reference is an index
  into it (below its length), and \<^verbatim>\<open>dict.copy()\<close> allocates. The values of the entries are shared between
  the original and the copy; \<^verbatim>\<open>sign_event\<close> changes no value in place.
\<close>

type_synonym store = "pydict list"

definition dict_copy :: "nat \<Rightarrow> store \<Rightarrow> nat \<times> store" where
  "dict_copy a h = (length h, h @ [h ! a])"

definition sign_event :: "primitives \<Rightarrow> nat \<Rightarrow> KeyPair \<Rightarrow> store \<Rightarrow> nat \<times> store" where
  "sign_event P event_dict keypair h =
     (let (event_copy, h1) = dict_copy event_dict h;
          h2 = h1[event_copy := dict_pop ''signature'' (h1 ! event_copy)];
          signature = KeyPair_sign P keypair (utf8_encode (canonical_json (h2 ! event_copy)));
          h3 = h2[event_copy := dict_setitem ''signature'' (JStr signature) (h2 ! event_copy)]
      in (event_copy, h3))"

text \<open>The dictionary a call returns, read from the store it leaves.\<close>

definition returned_dict :: "nat \<times> store \<Rightarrow> pydict" where
  "returned_dict r = snd r ! fst r"

section \<open>Hash chains (\<^verbatim>\<open>core/crypto.py\<close>)\<close>

text \<open>\<^verbatim>\<open>[e for e in events if e.get('sender_id') == sender_id]\<close>\<close>

definition sender_events :: "pydict list \<Rightarrow> string \<Rightarrow> pydict list" where
  "sender_events events sender_id =
     filter (\<lambda>e. dict_get e ''sender_id'' = JStr sender_id) events"

text \<open>The sort key \<^verbatim>\<open>e.get('timestamp_ms', 0)\<close>.\<close>

definition timestamp_key :: "pydict \<Rightarrow> json" where
  "timestamp_key e = dict_get_default e ''timestamp_ms'' (JInt 0)"

text \<open>Python orders integers and booleans (\<^verbatim>\<open>True\<close> is 1) together.\<close>

fun as_number :: "json \<Rightarrow> int option" where
  "as_number (JInt i) = Some i"
| "as_number (JBool b) = Some (if b then 1 else 0)"
| "as_number v = None"

definition timestamp_number :: "pydict \<Rightarrow> int" where
  "timestamp_number e = (case as_number (timestamp_key e) of Some i \<Rightarrow> i | None \<Rightarrow> 0)"

text \<open>
  \<^verbatim>\<open>list.sort(key=...)\<close> is stable and compares the keys with \<^verbatim>\<open><\<close>. A list of at most
  one element is returned without a comparison. With two or more elements, a key that is
  a number next to one that is not (a string, \<^verbatim>\<open>None\<close>, a list, a dictionary) raises
  \<^verbatim>\<open>TypeError\<close>. Lists whose keys are all of other types than numbers are outside the
  model (\<open>NotModelled\<close>): the protocol's \<^verbatim>\<open>timestamp_ms\<close> is an integer.
\<close>

datatype failure = Raised exn | NotModelled

definition sort_by_timestamp :: "pydict list \<Rightarrow> failure + pydict list" where
  "sort_by_timestamp es =
     (if length es \<le> 1 then Inr es
      else if list_all (\<lambda>e. as_number (timestamp_key e) \<noteq> None) es
        then Inr (sort_key timestamp_number es)
      else if list_ex (\<lambda>e. as_number (timestamp_key e) \<noteq> None) es
        then Inl (Raised TypeError)
      else Inl NotModelled)"

text \<open>
  The loop of \<^verbatim>\<open>verify_hash_chain\<close>; \<open>prev_hash\<close> is \<open>None\<close> before the first event and
  the hash of the event before afterwards.
\<close>

fun chain_loop :: "primitives \<Rightarrow> string option \<Rightarrow> pydict list \<Rightarrow> bool" where
  "chain_loop P prev_hash [] = True"
| "chain_loop P prev_hash (event # rest) =
     (let expected_prev_hash = dict_get event ''prev_event_hash'' in
      case prev_hash of
        None \<Rightarrow>
          if expected_prev_hash \<noteq> JNull then False
          else chain_loop P (Some (compute_event_hash P event)) rest
      | Some h \<Rightarrow>
          if expected_prev_hash \<noteq> JStr h then False
          else chain_loop P (Some (compute_event_hash P event)) rest)"

definition verify_hash_chain :: "primitives \<Rightarrow> pydict list \<Rightarrow> string \<Rightarrow> failure + bool" where
  "verify_hash_chain P events sender_id =
     (case sort_by_timestamp (sender_events events sender_id) of
        Inl f \<Rightarrow> Inl f
      | Inr sorted_events \<Rightarrow>
          if sorted_events = [] then Inr True
          else Inr (chain_loop P None sorted_events))"

text \<open>
  The chain condition in the words of the specification: the first record has no
  previous hash, and the previous hash of every later record is the hash of the record
  right before it.
\<close>

definition chain_linked :: "primitives \<Rightarrow> pydict list \<Rightarrow> bool" where
  "chain_linked P rs =
     ((case rs of [] \<Rightarrow> True | first # _ \<Rightarrow> dict_get first ''prev_event_hash'' = JNull) \<and>
      list_all (\<lambda>pe. dict_get (snd pe) ''prev_event_hash'' = JStr (compute_event_hash P (fst pe)))
        (zip rs (tl rs)))"

section \<open>Event factories (\<^verbatim>\<open>core/events.py\<close>)\<close>

text \<open>\<^verbatim>\<open>str.isspace\<close> and \<^verbatim>\<open>str.strip()\<close> on code points below 256.\<close>

definition py_isspace :: "char \<Rightarrow> bool" where
  "py_isspace c =
     (let n = (of_char c :: nat)
      in (9 \<le> n \<and> n \<le> 13) \<or> (28 \<le> n \<and> n \<le> 32) \<or> n = 133 \<or> n = 160)"

definition py_strip :: "string \<Rightarrow> string" where
  "py_strip s = rev (dropWhile py_isspace (rev (dropWhile py_isspace s)))"

text \<open>
  \<^verbatim>\<open>Event.generate_event_id\<close>; the ISO form of the local time and the fresh UUID are
  taken as arguments.
\<close>

definition generate_event_id :: "string \<Rightarrow> string \<Rightarrow> string \<Rightarrow> string" where
  "generate_event_id room_id timestamp_iso unique_id =
     room_id @ ''::'' @ timestamp_iso @ ''::'' @ unique_id"

definition opt_str :: "string option \<Rightarrow> json" where
  "opt_str x = (case x of None \<Rightarrow> JNull | Some s \<Rightarrow> JStr s)"

text \<open>\<^verbatim>\<open>create_message_event\<close>, with the generated event id as its first argument.\<close>

definition create_message_event ::
    "string \<Rightarrow> string \<Rightarrow> string \<Rightarrow> string \<Rightarrow> int \<Rightarrow> string option \<Rightarrow> string option \<Rightarrow> pydict" where
  "create_message_event new_event_id room_id sender_id message timestamp_ms
      parent_event_id prev_event_hash =
     [(''event_id'', JStr new_event_id),
      (''room_id'', JStr room_id),
      (''timestamp_ms'', JInt timestamp_ms),
      (''sender_id'', JStr sender_id),
      (''type'', JStr ''m.room.message''),
      (''parent_event_id'', opt_str parent_event_id),
      (''prev_event_hash'', opt_str prev_event_hash),
      (''signature'', JStr []),
      (''content'', JObj [(''body'', JStr (py_strip message)), (''msgtype'', JStr ''m.text'')])]"

section \<open>Example events\<close>

text \<open>
  Three messages of one sender, each linked to the hash of the one before, and a
  message of another sender.
\<close>

definition msg1 :: pydict where
  "msg1 = create_message_event ''room::1970-01-01T00:00:01Z::u1'' ''room'' ''alice'' ''m1'' 1000
     None None"

definition msg2 :: "primitives \<Rightarrow> pydict" where
  "msg2 P = create_message_event ''room::1970-01-01T00:00:02Z::u2'' ''room'' ''alice'' ''m2'' 2000
     None (Some (compute_event_hash P msg1))"

definition msg3 :: "primitives \<Rightarrow> pydict" where
  "msg3 P = create_message_event ''room::1970-01-01T00:00:03Z::u3'' ''room'' ''alice'' ''m3'' 3000
     None (Some (compute_event_hash P (msg2 P)))"

definition msg_bob :: pydict where
  "msg_bob = create_message_event ''room::1970-01-01T00:00:02Z::u4'' ''room'' ''bob'' ''hi'' 2000
     None None"

text \<open>
  The fields of \<open>msg1\<close> in another order, those of its \<^verbatim>\<open>content\<close> too, with a
  signature.
\<close>

definition msg1_reordered :: pydict where
  "msg1_reordered =
     [(''signature'', JStr ''c2lnbmVk''),
      (''content'', JObj [(''msgtype'', JStr ''m.text''), (''body'', JStr ''m1'')]),
      (''prev_event_hash'', JNull),
      (''parent_event_id'', JNull),
      (''type'', JStr ''m.room.message''),
      (''sender_id'', JStr ''alice''),
      (''timestamp_ms'', JInt 1000),
      (''room_id'', JStr ''room''),
      (''event_id'', JStr ''room::1970-01-01T00:00:01Z::u1'')]"

text \<open>A second message of the same sender with the timestamp of \<open>msg1\<close>, linked to it.\<close>

definition msg_tie :: "primitives \<Rightarrow> pydict" where
  "msg_tie P = create_message_event ''room::1970-01-01T00:00:01Z::u5'' ''room'' ''alice'' ''m2'' 1000
     None (Some (compute_event_hash P msg1))"

section \<open>Stand-ins for the primitives\<close>

text \<open>
  Functions that take the place of the library primitives where an example has to be
  evaluated: the digest keeps the first 24 bytes of its input, the Base64 encoder
  returns the bytes themselves, a signature is the key followed by the data, and the
  public key is the private key.
\<close>

definition stub_primitives :: primitives where
  "stub_primitives =
     \<lparr>sha256 = (\<lambda>b. take 24 b),
      b64encode = (\<lambda>b. b),
      ed25519_sign = (\<lambda>k d. k @ d),
      ed25519_verify = (\<lambda>pk sg d. sg = pk @ d)\<rparr>"

text \<open>The list without its element at position \<open>i\<close>.\<close>

definition remove_nth :: "nat \<Rightarrow> 'a list \<Rightarrow> 'a list" where
  "remove_nth i xs = take i xs @ drop (Suc i) xs"

text \<open>A key of 32 bytes.\<close>

definition key32 :: bytes where
  "key32 = ''0123456789abcdef0123456789abcdef''"

text \<open>
  The Base64 text of the 36 bytes \<open>key32 @ ''data''\<close>, which the stand-in for Ed25519
  takes for the signature of \<open>''data''\<close> under the key \<open>key32\<close>; and the same text
  with two exclamation marks, a line feed, a space and an asterisk put into it.
\<close>

definition signature_text :: string where
  "signature_text = ''MDEyMzQ1Njc4OWFiY2RlZjAxMjM0NTY3ODlhYmNkZWZkYXRh''"

definition signature_text_malformed :: string where
  "signature_text_malformed =
     ''MDEyMzQ1Nj!!'' @ [CHR 0x0A] @ '' *c4OWFiY2RlZjAxMjM0NTY3ODlhYmNkZWZkYXRh''"

section \<open>Event schema and validation (\<^verbatim>\<open>core/events.py\<close>)\<close>

text \<open>\<^verbatim>\<open>sub in s\<close> on strings.\<close>

fun py_contains :: "string \<Rightarrow> string \<Rightarrow> bool" where
  "py_contains sub [] = (sub = [])"
| "py_contains sub (c # cs) = (take (length sub) (c # cs) = sub \<or> py_contains sub cs)"

text \<open>
  \<^verbatim>\<open>s.split(sep)\<close> for a separator that is not empty (Python raises \<^verbatim>\<open>ValueError\<close> for
  the empty one): the text is cut at each occurrence of the separator, from the left,
  occurrences not overlapping. \<open>acc\<close> holds the current part in reverse.
\<close>

function split_from :: "string \<Rightarrow> string \<Rightarrow> string \<Rightarrow> string list" where
  "split_from sep acc [] = [rev acc]"
| "split_from sep acc (c # cs) =
     (if sep \<noteq> [] \<and> take (length sep) (c # cs) = sep
      then rev acc # split_from sep [] (drop (length sep) (c # cs))
      else split_from sep (c # acc) cs)"
  by pat_completeness auto
termination
  by (relation "measure (\<lambda>(sep, acc, s). length s)") (auto simp: Suc_le_eq)

definition py_split :: "string \<Rightarrow> string \<Rightarrow> string list" where
  "py_split s sep = split_from sep [] s"

text \<open>The fields of \<^verbatim>\<open>class Event(BaseModel)\<close>, in the order of their declaration.\<close>

record Event =
  event_id :: string
  room_id :: string
  timestamp_ms :: int
  sender_id :: string
  type :: string
  parent_event_id :: "string option"
  prev_event_hash :: "string option"
  signature :: string
  content :: pydict

text \<open>The \<^verbatim>\<open>ValueError\<close>s of the validators.\<close>

datatype field_error =
    TimestampNotPositive
  | TimestampInFuture
  | EventIdWithoutSeparators
  | EventIdNotThreeParts
  | EventIdRoomMismatch
  | InvalidEventType

text \<open>
  \<^verbatim>\<open>validate_timestamp\<close>; \<open>now_ms\<close> is the clock reading
  \<^verbatim>\<open>int(datetime.now().timestamp() * 1000)\<close>.
\<close>

definition validate_timestamp :: "int \<Rightarrow> int \<Rightarrow> field_error + int" where
  "validate_timestamp now_ms v =
     (if v \<le> 0 then Inl TimestampNotPositive
      else if v > now_ms + 3600000 then Inl TimestampInFuture
      else Inr v)"

text \<open>
  \<^verbatim>\<open>validate_event_id\<close>; \<open>values\<close> holds the fields validated before this one.
\<close>

definition validate_event_id :: "string \<Rightarrow> (string \<rightharpoonup> json) \<Rightarrow> field_error + string" where
  "validate_event_id v values =
     (if \<not> py_contains ''::'' v then Inl EventIdWithoutSeparators
      else
        let parts = py_split v ''::'' in
        if length parts \<noteq> 3 then Inl EventIdNotThreeParts
        else if ''room_id'' \<in> dom values \<and> Some (JStr (parts ! 0)) \<noteq> values ''room_id''
          then Inl EventIdRoomMismatch
        else Inr v)"

definition valid_types :: "string list" where
  "valid_types =
     [''m.room.message'', ''m.room.member'', ''m.room.redaction'',
      ''m.room.edit'', ''m.room.reaction'', ''m.room.typing'']"

definition validate_event_type :: "string \<Rightarrow> field_error + string" where
  "validate_event_type v = (if v \<notin> set valid_types then Inl InvalidEventType else Inr v)"

definition errors_of :: "field_error + 'a \<Rightarrow> field_error list" where
  "errors_of r = (case r of Inl e \<Rightarrow> [e] | Inr _ \<Rightarrow> [])"

text \<open>
  Validation of a model by pydantic, for input whose fields have the declared types:
  the fields are validated in the order of their declaration, a validator that asks for
  \<^verbatim>\<open>values\<close> receives the fields validated before its own, a field that fails is left
  out of \<^verbatim>\<open>values\<close>, and the errors of all fields are raised together as one
  \<^verbatim>\<open>ValidationError\<close>. \<^verbatim>\<open>event_id\<close> is the first field of \<^verbatim>\<open>Event\<close>: its validator
  runs on empty \<^verbatim>\<open>values\<close>.
\<close>

definition model_validate :: "int \<Rightarrow> Event \<Rightarrow> field_error list + Event" where
  "model_validate now_ms data =
     (let values0 = Map.empty;
          r_event_id = validate_event_id (event_id data) values0;
          r_timestamp_ms = validate_timestamp now_ms (timestamp_ms data);
          r_type = validate_event_type (type data);
          errors = errors_of r_event_id @ errors_of r_timestamp_ms @ errors_of r_type
      in if errors = [] then Inr data else Inl errors)"

text \<open>An event whose id names another room than its \<^verbatim>\<open>room_id\<close>.\<close>

definition event_other_room :: Event where
  "event_other_room =
     \<lparr>event_id = ''other::2024-01-01T00:00:00Z::u1'', room_id = ''room'',
      timestamp_ms = 1704067200000, sender_id = ''alice'', type = ''m.room.message'',
      parent_event_id = None, prev_event_hash = None, signature = ''c2lnbmVk'',
      content = [(''body'', JStr ''hi''), (''msgtype'', JStr ''m.text'')]\<rparr>"

section \<open>Storage layout (\<^verbatim>\<open>core/storage.py\<close>)\<close>

text \<open>
  \<^verbatim>\<open>str.isalnum\<close> of one character, for code points below 256: the ASCII digits and
  letters, and the letters and numeric characters of Latin-1.
\<close>

definition py_isalnum :: "char \<Rightarrow> bool" where
  "py_isalnum c =
     (let n = (of_char c :: nat)
      in (48 \<le> n \<and> n \<le> 57) \<or> (65 \<le> n \<and> n \<le> 90) \<or> (97 \<le> n \<and> n \<le> 122) \<or>
         n = 170 \<or> n = 178 \<or> n = 179 \<or> n = 181 \<or> n = 185 \<or> n = 186 \<or>
         (188 \<le> n \<and> n \<le> 190) \<or> (192 \<le> n \<and> n \<le> 214) \<or> (216 \<le> n \<and> n \<le> 246) \<or>
         248 \<le> n)"

definition generate_client_id :: "string \<Rightarrow> string" where
  "generate_client_id user_id =
     (let client_id = (if py_contains ''@'' user_id then hd (py_split user_id ''@'') else user_id)
      in filter (\<lambda>c. py_isalnum c \<or> c = CHR ''_'') client_id)"

text \<open>
  A path is the list of its components; \<^verbatim>\<open>p / name\<close> appends one component. (Names
  with a slash, which \<^verbatim>\<open>pathlib\<close> would split or treat as absolute, are outside the
  model.)
\<close>

type_synonym path = "string list"

definition path_join :: "path \<Rightarrow> string \<Rightarrow> path" where
  "path_join p name = p @ [name]"

record UnifiedStorage =
  base_path :: path
  is_cloud :: bool

definition get_daily_log_path ::
    "UnifiedStorage \<Rightarrow> string \<Rightarrow> string \<Rightarrow> int \<Rightarrow> int \<Rightarrow> string \<Rightarrow> path" where
  "get_daily_log_path self room date_str start_ts end_ts client_id =
     (let filename = ''messages_'' @ int_repr start_ts @ ''_'' @ int_repr end_ts @ ''_'' @
                     client_id @ ''.jsonl''
      in path_join (path_join (path_join (path_join (path_join (base_path self)
           ''rooms'') room) ''logs'') date_str) filename)"

definition get_room_metadata_path :: "UnifiedStorage \<Rightarrow> string \<Rightarrow> path" where
  "get_room_metadata_path self room =
     path_join (path_join (path_join (base_path self) ''rooms'') room) ''metadata.json''"

subsection \<open>The store behind the paths\<close>

text \<open>
  What exists in the backend: directories, and files with the JSON document written to
  them (of \<^verbatim>\<open>write_json\<close> the model keeps the document, not its indented text).
\<close>

datatype node = Directory | JsonFile json

type_synonym files = "path \<rightharpoonup> node"

text \<open>\<^verbatim>\<open>file_path.exists()\<close>\<close>

definition file_exists :: "files \<Rightarrow> path \<Rightarrow> bool" where
  "file_exists fs file_path = (fs file_path \<noteq> None)"

text \<open>
  \<^verbatim>\<open>Path.mkdir(parents=True, exist_ok=True)\<close>: every missing directory on the way is
  created; a file in the place of the directory raises \<^verbatim>\<open>FileExistsError\<close> and a file in
  the place of one of its ancestors \<^verbatim>\<open>NotADirectoryError\<close>, before anything is created.
\<close>

fun mkdirs :: "path list \<Rightarrow> files \<Rightarrow> exn + files" where
  "mkdirs [] fs = Inr fs"
| "mkdirs (q # qs) fs =
     (case fs q of
        None \<Rightarrow> mkdirs qs (fs(q \<mapsto> Directory))
      | Some Directory \<Rightarrow> mkdirs qs fs
      | Some (JsonFile _) \<Rightarrow> Inl (if qs = [] then FileExistsError else NotADirectoryError))"

definition ancestors_and_self :: "path \<Rightarrow> path list" where
  "ancestors_and_self p = map (\<lambda>n. take n p) [1..<Suc (length p)]"

definition mkdir_parents :: "path \<Rightarrow> files \<Rightarrow> exn + files" where
  "mkdir_parents p fs = mkdirs (ancestors_and_self p) fs"

text \<open>
  \<^verbatim>\<open>write_json\<close>: on a local path the parent directories are made first; every
  exception is caught and reported as \<open>False\<close>, with nothing written.
\<close>

definition write_json :: "UnifiedStorage \<Rightarrow> path \<Rightarrow> json \<Rightarrow> files \<Rightarrow> bool \<times> files" where
  "write_json self file_path data fs =
     (if is_cloud self then (True, fs(file_path \<mapsto> JsonFile data))
      else
        case mkdir_parents (butlast file_path) fs of
          Inl e \<Rightarrow> (False, fs)
        | Inr fs1 \<Rightarrow>
            if fs1 file_path = Some Directory then (False, fs)
            else (True, fs1(file_path \<mapsto> JsonFile data)))"

text \<open>
  \<^verbatim>\<open>ensure_room_structure\<close>; \<open>now_iso\<close> is \<^verbatim>\<open>datetime.now().isoformat()\<close>. The result of
  \<^verbatim>\<open>write_json\<close> is not looked at.
\<close>

definition room_metadata :: "string \<Rightarrow> string \<Rightarrow> json" where
  "room_metadata room now_iso =
     JObj [(''room_id'', JStr room), (''created_at'', JStr now_iso),
           (''version'', JStr ''1.0''), (''protocol'', JStr ''bucket-chat-v1'')]"

definition ensure_room_structure ::
    "UnifiedStorage \<Rightarrow> string \<Rightarrow> string \<Rightarrow> files \<Rightarrow> exn + files" where
  "ensure_room_structure self room now_iso fs =
     (let room_path = path_join (path_join (base_path self) ''rooms'') room;
          logs_path = path_join room_path ''logs'';
          made =
            (if is_cloud self then Inr fs
             else case mkdir_parents room_path fs of
                    Inl e \<Rightarrow> Inl e
                  | Inr fs1 \<Rightarrow> mkdir_parents logs_path fs1)
      in case made of
           Inl e \<Rightarrow> Inl e
         | Inr fs2 \<Rightarrow>
             let metadata_path = path_join room_path ''metadata.json''
             in if \<not> file_exists fs2 metadata_path
                then Inr (snd (write_json self metadata_path (room_metadata room now_iso) fs2))
                else Inr fs2)"

text \<open>A local and a cloud storage handle for the examples.\<close>

definition local_storage :: UnifiedStorage where
  "local_storage = \<lparr>base_path = [''data''], is_cloud = False\<rparr>"

definition cloud_storage :: UnifiedStorage where
  "cloud_storage = \<lparr>base_path = [''s3://bucket'', ''chat''], is_cloud = True\<rparr>"

section \<open>JSON lines (\<^verbatim>\<open>Event.to_jsonl_line\<close>, \<^verbatim>\<open>Event.from_jsonl_line\<close>)\<close>

text \<open>\<^verbatim>\<open>model_dump()\<close>: the fields in the order of their declaration.\<close>

definition model_dump :: "Event \<Rightarrow> pydict" where
  "model_dump self =
     [(''event_id'', JStr (event_id self)),
      (''room_id'', JStr (room_id self)),
      (''timestamp_ms'', JInt (timestamp_ms self)),
      (''sender_id'', JStr (sender_id self)),
      (''type'', JStr (type self)),
      (''parent_event_id'', opt_str (parent_event_id self)),
      (''prev_event_hash'', opt_str (prev_event_hash self)),
      (''signature'', JStr (signature self)),
      (''content'', JObj (content self))]"

text \<open>
  The JSON text that pydantic writes: no white space, the keys in the order of the
  dictionary, and in strings an escape for the quote, the backslash and the control
  characters only.
\<close>

definition escape_json_char :: "char \<Rightarrow> string" where
  "escape_json_char c =
     (if c = CHR 0x22 then [CHR 0x5C, CHR 0x22]
      else if c = CHR 0x5C then [CHR 0x5C, CHR 0x5C]
      else if c = CHR 0x08 then [CHR 0x5C, CHR ''b'']
      else if c = CHR 0x0C then [CHR 0x5C, CHR ''f'']
      else if c = CHR 0x0A then [CHR 0x5C, CHR ''n'']
      else if c = CHR 0x0D then [CHR 0x5C, CHR ''r'']
      else if c = CHR 0x09 then [CHR 0x5C, CHR ''t'']
      else if (of_char c :: nat) < 32 then [CHR 0x5C, CHR ''u''] @ hex4 (of_char c)
      else [c])"

definition json_string :: "string \<Rightarrow> string" where
  "json_string s = [CHR 0x22] @ concat (map escape_json_char s) @ [CHR 0x22]"

function to_json :: "json \<Rightarrow> string" where
  "to_json JNull = ''null''"
| "to_json (JBool b) = (if b then ''true'' else ''false'')"
| "to_json (JInt i) = int_repr i"
| "to_json (JStr s) = json_string s"
| "to_json (JArr vs) = ''['' @ join '','' (map to_json vs) @ '']''"
| "to_json (JObj kvs) =
     ''{'' @ join '','' (map (\<lambda>kv. json_string (fst kv) @ '':'' @ to_json (snd kv)) kvs) @ ''}''"
  by pat_completeness auto
termination
proof (relation "measure size")
  show "wf (measure (size :: json \<Rightarrow> nat))" by simp
next
  fix vs :: "json list" and x
  assume "x \<in> set vs"
  then have "size x \<le> size_list size vs"
    by (simp add: size_list_estimation')
  then show "(x, JArr vs) \<in> measure size" by simp
next
  fix kvs :: "(string \<times> json) list" and x
  assume "x \<in> set kvs"
  then have "size_prod (\<lambda>_. 0) size x \<le> size_list (size_prod (\<lambda>_. 0) size) kvs"
    by (simp add: size_list_estimation')
  then show "(snd x, JObj kvs) \<in> measure size"
    by (cases x) simp
qed

definition model_dump_json :: "Event \<Rightarrow> string" where
  "model_dump_json self = to_json (JObj (model_dump self))"

definition to_jsonl_line :: "Event \<Rightarrow> string" where
  "to_jsonl_line self = model_dump_json self @ [CHR 0x0A]"

subsection \<open>Reading JSON text\<close>

text \<open>
  A reader of JSON text. \<open>None\<close> stands for text that is not JSON and for text outside
  the model: numbers with a fraction or an exponent, and \<^verbatim>\<open>\u\<close> escapes of code points
  from 256 on.
\<close>

definition json_ws :: "char \<Rightarrow> bool" where
  "json_ws c = (c = CHR '' '' \<or> c = CHR 0x09 \<or> c = CHR 0x0A \<or> c = CHR 0x0D)"

definition skip_ws :: "string \<Rightarrow> string" where
  "skip_ws s = dropWhile json_ws s"

definition hex_value :: "char \<Rightarrow> nat option" where
  "hex_value c =
     (let n = (of_char c :: nat)
      in if 48 \<le> n \<and> n \<le> 57 then Some (n - 48)
         else if 97 \<le> n \<and> n \<le> 102 then Some (n - 87)
         else if 65 \<le> n \<and> n \<le> 70 then Some (n - 55)
         else None)"

definition unescape :: "char \<Rightarrow> char option" where
  "unescape e =
     (if e = CHR 0x22 then Some (CHR 0x22)
      else if e = CHR 0x5C then Some (CHR 0x5C)
      else if e = CHR ''/'' then Some (CHR ''/'')
      else if e = CHR ''b'' then Some (CHR 0x08)
      else if e = CHR ''f'' then Some (CHR 0x0C)
      else if e = CHR ''n'' then Some (CHR 0x0A)
      else if e = CHR ''r'' then Some (CHR 0x0D)
      else if e = CHR ''t'' then Some (CHR 0x09)
      else None)"

definition unicode_escape :: "char \<Rightarrow> char \<Rightarrow> char \<Rightarrow> char \<Rightarrow> char option" where
  "unicode_escape a b c d =
     (case (hex_value a, hex_value b, hex_value c, hex_value d) of
        (Some h3, Some h2, Some h1, Some h0) \<Rightarrow>
          (let n = h3 * 4096 + h2 * 256 + h1 * 16 + h0
           in if n < 256 then Some (char_of n) else None)
      | _ \<Rightarrow> None)"

text \<open>The characters of a string after its opening quote, up to the closing quote.\<close>

fun read_string :: "string \<Rightarrow> string \<Rightarrow> (string \<times> string) option" where
  "read_string acc [] = None"
| "read_string acc (c # cs) =
     (if c = CHR 0x22 then Some (rev acc, cs)
      else if c = CHR 0x5C then
        (case cs of
           [] \<Rightarrow> None
         | e # cs1 \<Rightarrow>
             if e = CHR ''u'' then
               (case cs1 of
                  h3 # h2 # h1 # h0 # cs2 \<Rightarrow>
                    (case unicode_escape h3 h2 h1 h0 of
                       None \<Rightarrow> None
                     | Some x \<Rightarrow> read_string (x # acc) cs2)
                | _ \<Rightarrow> None)
             else
               (case unescape e of
                  None \<Rightarrow> None
                | Some x \<Rightarrow> read_string (x # acc) cs1))
      else if (of_char c :: nat) < 32 then None
      else read_string (c # acc) cs)"

definition is_digit :: "char \<Rightarrow> bool" where
  "is_digit c = (48 \<le> (of_char c :: nat) \<and> (of_char c :: nat) \<le> 57)"

definition digits_value :: "string \<Rightarrow> nat" where
  "digits_value ds = foldl (\<lambda>n d. 10 * n + (of_char d - 48)) 0 ds"

text \<open>An integer: an optional minus sign and digits, without a leading zero.\<close>

definition read_int :: "string \<Rightarrow> (int \<times> string) option" where
  "read_int s =
     (let negative = (s \<noteq> [] \<and> hd s = CHR ''-'');
          body = (if negative then tl s else s);
          ds = takeWhile is_digit body;
          rest = dropWhile is_digit body
      in if ds = [] \<or> (hd ds = CHR ''0'' \<and> length ds > 1) then None
         else if rest \<noteq> [] \<and> (hd rest = CHR ''.'' \<or> hd rest = CHR ''e'' \<or> hd rest = CHR ''E'')
           then None
         else Some (if negative then - int (digits_value ds) else int (digits_value ds), rest))"

text \<open>
  The reader of values, arrays and objects. Its first argument bounds the depth of the
  recursion; \<open>json_loads\<close> starts it with more than the length of the text, which is
  enough for any text. A key that occurs again replaces the value of its first
  occurrence, as in a Python dictionary.
\<close>

fun read_value :: "nat \<Rightarrow> string \<Rightarrow> (json \<times> string) option"
  and read_elements :: "nat \<Rightarrow> json list \<Rightarrow> string \<Rightarrow> (json list \<times> string) option"
  and read_members :: "nat \<Rightarrow> pydict \<Rightarrow> string \<Rightarrow> (pydict \<times> string) option" where
  "read_value 0 s = None"
| "read_value (Suc n) s =
     (case skip_ws s of
        [] \<Rightarrow> None
      | c # cs \<Rightarrow>
          if c = CHR 0x22 then
            (case read_string [] cs of None \<Rightarrow> None | Some (x, r) \<Rightarrow> Some (JStr x, r))
          else if c = CHR ''['' then
            (case skip_ws cs of
               [] \<Rightarrow> None
             | d # ds \<Rightarrow> if d = CHR '']'' then Some (JArr [], ds) else
                 (case read_elements n [] cs of None \<Rightarrow> None | Some (vs, r) \<Rightarrow> Some (JArr vs, r)))
          else if c = CHR ''{'' then
            (case skip_ws cs of
               [] \<Rightarrow> None
             | d # ds \<Rightarrow> if d = CHR ''}'' then Some (JObj [], ds) else
                 (case read_members n [] cs of None \<Rightarrow> None | Some (kvs, r) \<Rightarrow> Some (JObj kvs, r)))
          else if take 4 (c # cs) = ''null'' then Some (JNull, drop 4 (c # cs))
          else if take 4 (c # cs) = ''true'' then Some (JBool True, drop 4 (c # cs))
          else if take 5 (c # cs) = ''false'' then Some (JBool False, drop 5 (c # cs))
          else (case read_int (c # cs) of None \<Rightarrow> None | Some (i, r) \<Rightarrow> Some (JInt i, r)))"
| "read_elements 0 acc s = None"
| "read_elements (Suc n) acc s =
     (case read_value n s of
        None \<Rightarrow> None
      | Some (v, r) \<Rightarrow>
          (case skip_ws r of
             [] \<Rightarrow> None
           | c # cs \<Rightarrow>
               if c = CHR '','' then read_elements n (acc @ [v]) cs
               else if c = CHR '']'' then Some (acc @ [v], cs)
               else None))"
| "read_members 0 acc s = None"
| "read_members (Suc n) acc s =
     (case skip_ws s of
        [] \<Rightarrow> None
      | q # s1 \<Rightarrow>
          if q \<noteq> CHR 0x22 then None else
          (case read_string [] s1 of
             None \<Rightarrow> None
           | Some (k, s2) \<Rightarrow>
               (case skip_ws s2 of
                  [] \<Rightarrow> None
                | colon # s3 \<Rightarrow>
                    if colon \<noteq> CHR '':'' then None else
                    (case read_value n s3 of
                       None \<Rightarrow> None
                     | Some (v, r) \<Rightarrow>
                         (case skip_ws r of
                            [] \<Rightarrow> None
                          | c # cs \<Rightarrow>
                              if c = CHR '','' then read_members n (dict_setitem k v acc) cs
                              else if c = CHR ''}'' then Some (dict_setitem k v acc, cs)
                              else None)))))"

definition json_loads :: "string \<Rightarrow> json option" where
  "json_loads s =
     (case read_value (Suc (length s)) s of
        None \<Rightarrow> None
      | Some (v, r) \<Rightarrow> if skip_ws r = [] then Some v else None)"

subsection \<open>Validation of a line\<close>

text \<open>
  What \<^verbatim>\<open>model_validate_json\<close> raises: the text is not read as JSON, or the object does
  not validate as an \<^verbatim>\<open>Event\<close>. pydantic also converts some values of another type
  (a string of digits for \<^verbatim>\<open>timestamp_ms\<close>, say); such input is outside the model.
\<close>

datatype load_error = JsonNotRead | ValidationError | OutsideModel

definition str_field :: "pydict \<Rightarrow> string \<Rightarrow> load_error + string" where
  "str_field d k =
     (case map_of d k of Some (JStr s) \<Rightarrow> Inr s | _ \<Rightarrow> Inl ValidationError)"

definition opt_str_field :: "pydict \<Rightarrow> string \<Rightarrow> load_error + string option" where
  "opt_str_field d k =
     (case map_of d k of
        None \<Rightarrow> Inr None
      | Some JNull \<Rightarrow> Inr None
      | Some (JStr s) \<Rightarrow> Inr (Some s)
      | _ \<Rightarrow> Inl ValidationError)"

definition int_field :: "pydict \<Rightarrow> string \<Rightarrow> load_error + int" where
  "int_field d k =
     (case map_of d k of
        Some (JInt i) \<Rightarrow> Inr i
      | Some (JStr s) \<Rightarrow> Inl OutsideModel
      | Some (JBool b) \<Rightarrow> Inl OutsideModel
      | _ \<Rightarrow> Inl ValidationError)"

definition dict_field :: "pydict \<Rightarrow> string \<Rightarrow> load_error + pydict" where
  "dict_field d k =
     (case map_of d k of Some (JObj kvs) \<Rightarrow> Inr kvs | _ \<Rightarrow> Inl ValidationError)"

definition bind_field :: "load_error + 'a \<Rightarrow> ('a \<Rightarrow> load_error + 'b) \<Rightarrow> load_error + 'b" where
  "bind_field r f = (case r of Inl e \<Rightarrow> Inl e | Inr x \<Rightarrow> f x)"

text \<open>The fields are taken from the object, then the validators run.\<close>

definition model_validate_object :: "int \<Rightarrow> pydict \<Rightarrow> load_error + Event" where
  "model_validate_object now_ms d =
     bind_field (str_field d ''event_id'') (\<lambda>v_event_id.
     bind_field (str_field d ''room_id'') (\<lambda>v_room_id.
     bind_field (int_field d ''timestamp_ms'') (\<lambda>v_timestamp_ms.
     bind_field (str_field d ''sender_id'') (\<lambda>v_sender_id.
     bind_field (str_field d ''type'') (\<lambda>v_type.
     bind_field (opt_str_field d ''parent_event_id'') (\<lambda>v_parent_event_id.
     bind_field (opt_str_field d ''prev_event_hash'') (\<lambda>v_prev_event_hash.
     bind_field (str_field d ''signature'') (\<lambda>v_signature.
     bind_field (dict_field d ''content'') (\<lambda>v_content.
       case model_validate now_ms
              \<lparr>event_id = v_event_id, room_id = v_room_id, timestamp_ms = v_timestamp_ms,
               sender_id = v_sender_id, type = v_type, parent_event_id = v_parent_event_id,
               prev_event_hash = v_prev_event_hash, signature = v_signature,
               content = v_content\<rparr> of
         Inl errors \<Rightarrow> Inl ValidationError
       | Inr event \<Rightarrow> Inr event)))))))))"

definition model_validate_json :: "int \<Rightarrow> string \<Rightarrow> load_error + Event" where
  "model_validate_json now_ms text =
     (case json_loads text of
        None \<Rightarrow> Inl JsonNotRead
      | Some (JObj d) \<Rightarrow> model_validate_object now_ms d
      | Some _ \<Rightarrow> Inl ValidationError)"

definition from_jsonl_line :: "int \<Rightarrow> string \<Rightarrow> load_error + Event" where
  "from_jsonl_line now_ms line = model_validate_json now_ms (py_strip line)"

text \<open>
  The invariant of Python dictionaries, at every level of a value: no key occurs twice.
\<close>

function wf_json :: "json \<Rightarrow> bool" where
  "wf_json JNull = True"
| "wf_json (JBool b) = True"
| "wf_json (JInt i) = True"
| "wf_json (JStr s) = True"
| "wf_json (JArr vs) = (\<forall>v\<in>set vs. wf_json v)"
| "wf_json (JObj kvs) = (distinct (map fst kvs) \<and> (\<forall>kv\<in>set kvs. wf_json (snd kv)))"
  by pat_completeness auto
termination
proof (relation "measure size")
  show "wf (measure (size :: json \<Rightarrow> nat))" by simp
next
  fix vs :: "json list" and x
  assume "x \<in> set vs"
  then have "size x \<le> size_list size vs"
    by (simp add: size_list_estimation')
  then show "(x, JArr vs) \<in> measure size" by simp
next
  fix kvs :: "(string \<times> json) list" and x
  assume "x \<in> set kvs"
  then have "size_prod (\<lambda>_. 0) size x \<le> size_list (size_prod (\<lambda>_. 0) size) kvs"
    by (simp add: size_list_estimation')
  then show "(snd x, JObj kvs) \<in> measure size"
    by (cases x) simp
qed

text \<open>
  Two values are equal as key-value maps, at every level. Two dictionaries are equal
  when they have the same number of entries and every key of the first is a key of
  the second, with values that are equal in this sense, in whatever order the keys
  were inserted (the way Python compares dictionaries); two lists when they have the
  same length and equal elements at each position; two scalars when they are the same.
\<close>

function json_eq :: "json \<Rightarrow> json \<Rightarrow> bool" where
  "json_eq (JArr vs) b =
     (case b of
        JArr ws \<Rightarrow> length vs = length ws \<and> (\<forall>i < length vs. json_eq (vs ! i) (ws ! i))
      | _ \<Rightarrow> False)"
| "json_eq (JObj kvs) b =
     (case b of
        JObj kws \<Rightarrow>
          length kvs = length kws \<and>
          (\<forall>kv \<in> set kvs.
             case map_of kws (fst kv) of None \<Rightarrow> False | Some w \<Rightarrow> json_eq (snd kv) w)
      | _ \<Rightarrow> False)"
| "json_eq JNull b = (b = JNull)"
| "json_eq (JBool x) b = (b = JBool x)"
| "json_eq (JInt i) b = (b = JInt i)"
| "json_eq (JStr s) b = (b = JStr s)"
  by pat_completeness auto
termination
proof (relation "measure (\<lambda>p. size (fst p))")
  show "wf (measure (\<lambda>p :: json \<times> json. size (fst p)))" by simp
next
  fix vs :: "json list" and b :: json and ws :: "json list" and i :: nat
  assume "i < length vs"
  then have "vs ! i \<in> set vs" by simp
  then have "size (vs ! i) \<le> size_list size vs"
    by (simp add: size_list_estimation')
  then show "((vs ! i, ws ! i), (JArr vs, b)) \<in> measure (\<lambda>p. size (fst p))" by simp
next
  fix kvs :: "(string \<times> json) list" and b :: json and kws :: "(string \<times> json) list"
    and x :: "string \<times> json" and w :: json
  assume "x \<in> set kvs"
  then have "size_prod (\<lambda>_. 0) size x \<le> size_list (size_prod (\<lambda>_. 0) size) kvs"
    by (simp add: size_list_estimation')
  then show "((snd x, w), (JObj kvs, b)) \<in> measure (\<lambda>p. size (fst p))"
    by (cases x) simp
qed

text \<open>What may follow a value in compact JSON text: nothing, a comma or a closing bracket.\<close>

definition ends_value :: "string \<Rightarrow> bool" where
  "ends_value rest =
     (case rest of [] \<Rightarrow> True | c # _ \<Rightarrow> c = CHR '','' \<or> c = CHR '']'' \<or> c = CHR ''}'')"

text \<open>One member of an object, as \<open>to_json\<close> writes it.\<close>

definition json_member :: "string \<times> json \<Rightarrow> string" where
  "json_member kv = json_string (fst kv) @ '':'' @ to_json (snd kv)"

section \<open>Properties of the canonical encoding\<close>

lemma distinct_dict_pop: "distinct (map fst d) \<Longrightarrow> distinct (map fst (dict_pop k d))"
  by (simp add: dict_pop_def distinct_map_filter)

lemma map_of_member: "distinct (map fst kvs) \<Longrightarrow> kv \<in> set kvs \<Longrightarrow> map_of kvs (fst kv) = Some (snd kv)"
  by (cases kv) simp

lemma json_eq_keys:
  assumes "distinct (map fst kvs)" and "distinct (map fst kws)" and "length kvs = length kws"
    and "\<forall>kv \<in> set kvs. map_of kws (fst kv) \<noteq> None"
  shows "set (map fst kvs) = set (map fst kws)"
proof (rule card_subset_eq)
  show "finite (set (map fst kws))" by simp
  show "set (map fst kvs) \<subseteq> set (map fst kws)"
    using assms(4) by (auto simp: map_of_eq_None_iff)
  from assms(1) have "card (set (map fst kvs)) = length kvs"
    by (simp add: distinct_card del: set_map)
  moreover from assms(2) have "card (set (map fst kws)) = length kws"
    by (simp add: distinct_card del: set_map)
  ultimately show "card (set (map fst kvs)) = card (set (map fst kws))"
    using assms(3) by simp
qed

lemma sorted_keys_eq:
  assumes "distinct (map fst kvs)" and "distinct (map fst kws)"
    and "set (map fst kvs) = set (map fst kws)"
  shows "map fst (sort_key fst kvs) = map fst (sort_key fst kws)"
proof (rule sorted_distinct_set_unique)
  show "sorted (map fst (sort_key fst kvs))" by simp
  show "sorted (map fst (sort_key fst kws))" by simp
  from assms(1) show "distinct (map fst (sort_key fst kvs))"
    by (simp add: distinct_map)
  from assms(2) show "distinct (map fst (sort_key fst kws))"
    by (simp add: distinct_map)
  from assms(3) show "set (map fst (sort_key fst kvs)) = set (map fst (sort_key fst kws))"
    by simp
qed

lemma map_members_by_key:
  assumes "distinct (map fst kvs)"
  shows "map (\<lambda>kv. f (fst kv) (snd kv)) (sort_key fst kvs) =
         map (\<lambda>k. f k (the (map_of kvs k))) (map fst (sort_key fst kvs))"
  using assms by (simp add: map_of_member)

lemma json_dumps_json_eq:
  "json_eq a b \<Longrightarrow> wf_json a \<Longrightarrow> wf_json b \<Longrightarrow> json_dumps a = json_dumps b"
proof (induction a b rule: json_eq.induct)
  case (1 vs b)
  from "1.prems"(1) obtain ws where b: "b = JArr ws" and len: "length vs = length ws"
    and eq: "\<forall>i < length vs. json_eq (vs ! i) (ws ! i)"
    by (cases b) simp_all
  have "map json_dumps vs = map json_dumps ws"
  proof (rule nth_equalityI)
    show "length (map json_dumps vs) = length (map json_dumps ws)"
      using len by simp
  next
    fix i assume "i < length (map json_dumps vs)"
    then have i: "i < length vs" by simp
    with len have "vs ! i \<in> set vs" and "ws ! i \<in> set ws" by simp_all
    with "1.prems"(2,3) b have "wf_json (vs ! i)" and "wf_json (ws ! i)" by simp_all
    with "1.IH" [OF b i] eq i have "json_dumps (vs ! i) = json_dumps (ws ! i)" by simp
    with i len show "map json_dumps vs ! i = map json_dumps ws ! i" by simp
  qed
  with b show ?case by simp
next
  case (2 kvs b)
  from "2.prems"(1) obtain kws where b: "b = JObj kws" and len: "length kvs = length kws"
    and eq: "\<forall>kv \<in> set kvs. case map_of kws (fst kv) of None \<Rightarrow> False | Some w \<Rightarrow> json_eq (snd kv) w"
    by (cases b) simp_all
  from "2.prems"(2) have d1: "distinct (map fst kvs)" by simp
  from "2.prems"(3) b have d2: "distinct (map fst kws)" by simp
  from eq have "\<forall>kv \<in> set kvs. map_of kws (fst kv) \<noteq> None"
    by (auto split: option.splits)
  with d1 d2 len have keys: "set (map fst kvs) = set (map fst kws)"
    by (rule json_eq_keys)
  let ?f = "\<lambda>k v. encode_basestring_ascii k @ '':'' @ json_dumps v"
  have "map (\<lambda>k. ?f k (the (map_of kvs k))) (map fst (sort_key fst kvs)) =
        map (\<lambda>k. ?f k (the (map_of kws k))) (map fst (sort_key fst kvs))"
  proof (rule map_cong [OF refl])
    fix k assume "k \<in> set (map fst (sort_key fst kvs))"
    then obtain kv where kv: "kv \<in> set kvs" and k: "k = fst kv" by auto
    from eq kv obtain w where w: "map_of kws (fst kv) = Some w" and e: "json_eq (snd kv) w"
      by (auto split: option.splits)
    from w have "(fst kv, w) \<in> set kws" by (rule map_of_SomeD)
    with "2.prems"(3) b have "wf_json w" by auto
    moreover from "2.prems"(2) kv have "wf_json (snd kv)" by simp
    ultimately have "json_dumps (snd kv) = json_dumps w"
      using "2.IH" [OF b kv w] e by simp
    with map_of_member [OF d1 kv] w k
    show "?f k (the (map_of kvs k)) = ?f k (the (map_of kws k))" by simp
  qed
  with sorted_keys_eq [OF d1 d2 keys] map_members_by_key [OF d1, of ?f] map_members_by_key [OF d2, of ?f]
  have "map (\<lambda>kv. ?f (fst kv) (snd kv)) (sort_key fst kvs) =
        map (\<lambda>kv. ?f (fst kv) (snd kv)) (sort_key fst kws)"
    by simp
  with b show ?case by simp
qed simp_all

lemma wf_json_dict_pop: "wf_json (JObj d) \<Longrightarrow> wf_json (JObj (dict_pop k d))"
  by (simp add: distinct_dict_pop) (simp add: dict_pop_def)

lemma canonical_json_json_eq:
  assumes "wf_json (JObj d1)" and "wf_json (JObj d2)"
    and "json_eq (JObj (dict_pop ''signature'' d1)) (JObj (dict_pop ''signature'' d2))"
  shows "canonical_json (dict_pop ''signature'' d1) = canonical_json (dict_pop ''signature'' d2)"
  unfolding canonical_json_def
  using assms(3) wf_json_dict_pop [OF assms(1)] wf_json_dict_pop [OF assms(2)]
  by (rule json_dumps_json_eq)

lemma dict_setitem_fresh: "k \<notin> fst ` set d \<Longrightarrow> dict_setitem k v d = d @ [(k, v)]"
  by (induction d) auto

lemma dict_setitem_pop: "dict_setitem k v (dict_pop k d) = dict_pop k d @ [(k, v)]"
  by (rule dict_setitem_fresh) (auto simp: dict_pop_def)

lemma sign_event_unfold:
  "sign_event P a keypair h =
     (length h,
      h @ [dict_pop ''signature'' (h ! a) @
           [(''signature'',
             JStr (KeyPair_sign P keypair
                (utf8_encode (canonical_json (dict_pop ''signature'' (h ! a))))))]])"
  by (simp add: sign_event_def dict_copy_def Let_def dict_setitem_pop)

lemma dict_get_append_fresh:
  "k \<notin> fst ` set d \<Longrightarrow> dict_get (d @ [(k, v)]) k = v"
proof -
  assume "k \<notin> fst ` set d"
  then have "map_of d k = None"
    by (simp add: map_of_eq_None_iff)
  then show ?thesis
    by (simp add: dict_get_def map_add_def)
qed

lemma returned_dict_sign_event:
  "returned_dict (sign_event P a keypair h) =
     dict_pop ''signature'' (h ! a) @
       [(''signature'',
         JStr (KeyPair_sign P keypair
            (utf8_encode (canonical_json (dict_pop ''signature'' (h ! a))))))]"
  by (simp add: sign_event_unfold returned_dict_def)

lemma signature_of_sign_event:
  "dict_get (returned_dict (sign_event P a keypair h)) ''signature'' =
     JStr (KeyPair_sign P keypair
        (utf8_encode (canonical_json (dict_pop ''signature'' (h ! a)))))"
  unfolding returned_dict_sign_event
  by (rule dict_get_append_fresh) (auto simp: dict_pop_def)

section \<open>Properties of the hash chain\<close>

lemma chain_loop_Some:
  "chain_loop P (Some h) rs =
     ((case rs of [] \<Rightarrow> True | e # _ \<Rightarrow> dict_get e ''prev_event_hash'' = JStr h) \<and>
      list_all (\<lambda>pe. dict_get (snd pe) ''prev_event_hash'' = JStr (compute_event_hash P (fst pe)))
        (zip rs (tl rs)))"
proof (induction rs arbitrary: h)
  case Nil
  show ?case by simp
next
  case (Cons e rs)
  have step: "chain_loop P (Some h) (e # rs) =
      (dict_get e ''prev_event_hash'' = JStr h \<and> chain_loop P (Some (compute_event_hash P e)) rs)"
    by (simp add: Let_def)
  show ?case
    unfolding step Cons.IH by (cases rs) auto
qed

lemma chain_loop_None: "chain_loop P None rs = chain_linked P rs"
proof (cases rs)
  case Nil
  then show ?thesis by (simp add: chain_linked_def)
next
  case (Cons e es)
  have step: "chain_loop P None (e # es) =
      (dict_get e ''prev_event_hash'' = JNull \<and> chain_loop P (Some (compute_event_hash P e)) es)"
    by (simp add: Let_def)
  show ?thesis
    unfolding Cons step chain_loop_Some chain_linked_def by (cases es) auto
qed

lemma sort_by_timestamp_numbers:
  assumes "list_all (\<lambda>e. as_number (timestamp_key e) \<noteq> None) es"
  shows "sort_by_timestamp es = Inr (sort_key timestamp_number es)"
proof (cases "length es \<le> 1")
  case True
  then have "es = [] \<or> (\<exists>e. es = [e])"
    by (cases es) auto
  then show ?thesis
    by (auto simp: sort_by_timestamp_def)
next
  case False
  with assms show ?thesis
    by (simp add: sort_by_timestamp_def)
qed

lemma verify_hash_chain_numbers:
  assumes "list_all (\<lambda>e. as_number (timestamp_key e) \<noteq> None) (sender_events events sid)"
  shows "verify_hash_chain P events sid =
    Inr (chain_linked P (sort_key timestamp_number (sender_events events sid)))"
proof -
  let ?rs = "sort_key timestamp_number (sender_events events sid)"
  have "chain_linked P ?rs" if "?rs = []"
    using that by (simp add: chain_linked_def)
  then show ?thesis
    by (auto simp: verify_hash_chain_def sort_by_timestamp_numbers [OF assms] chain_loop_None)
qed

section \<open>Canonical encoding, hash chains and signatures\<close>

text \<open>
  C1. Canonical encoding is field-order independent and excludes the signature: two
  event dictionaries that are equal as key-value maps once the \<^verbatim>\<open>signature\<close> field is
  removed (whatever the insertion order of the fields, at the top and inside nested
  dictionaries such as \<^verbatim>\<open>content\<close>, and whatever \<^verbatim>\<open>signature\<close> holds) have the same
  canonical bytes, so \<^verbatim>\<open>compute_event_hash\<close> returns the same hash for both and
  \<^verbatim>\<open>sign_event\<close> with the same key pair attaches the same signature to both.
\<close>

theorem canonical_encoding_order_independent:
  assumes "wf_json (JObj d1)" and "wf_json (JObj d2)"
    and "json_eq (JObj (dict_pop ''signature'' d1)) (JObj (dict_pop ''signature'' d2))"
    and "a1 < length h1" and "h1 ! a1 = d1"
    and "a2 < length h2" and "h2 ! a2 = d2"
  shows "utf8_encode (canonical_json (dict_pop ''signature'' d1)) =
           utf8_encode (canonical_json (dict_pop ''signature'' d2)) \<and>
         compute_event_hash P d1 = compute_event_hash P d2 \<and>
         dict_get (returned_dict (sign_event P a1 keypair h1)) ''signature'' =
           dict_get (returned_dict (sign_event P a2 keypair h2)) ''signature''"
proof -
  have "canonical_json (dict_pop ''signature'' d1) = canonical_json (dict_pop ''signature'' d2)"
    using assms(1-3) by (rule canonical_json_json_eq)
  then show ?thesis
    by (simp add: compute_event_hash_def signature_of_sign_event assms(5,7))
qed

theorem canonical_encoding_order_independent_witness:
  "\<forall>P keypair.
     wf_json (JObj msg1) \<and> wf_json (JObj msg1_reordered) \<and>
     json_eq (JObj (dict_pop ''signature'' msg1)) (JObj (dict_pop ''signature'' msg1_reordered)) \<and>
     map fst msg1 \<noteq> map fst msg1_reordered \<and>
     dict_get msg1 ''content'' = JObj [(''body'', JStr ''m1''), (''msgtype'', JStr ''m.text'')] \<and>
     dict_get msg1_reordered ''content'' =
       JObj [(''msgtype'', JStr ''m.text''), (''body'', JStr ''m1'')] \<and>
     dict_get msg1 ''signature'' = JStr [] \<and>
     dict_get msg1_reordered ''signature'' = JStr ''c2lnbmVk'' \<and>
     utf8_encode (canonical_json (dict_pop ''signature'' msg1)) =
       utf8_encode (canonical_json (dict_pop ''signature'' msg1_reordered)) \<and>
     compute_event_hash P msg1 = compute_event_hash P msg1_reordered \<and>
     dict_get (returned_dict (sign_event P 0 keypair [msg1, msg1_reordered])) ''signature'' =
       dict_get (returned_dict (sign_event P 1 keypair [msg1, msg1_reordered])) ''signature''"
proof (intro allI)
  fix P keypair
  have w1: "wf_json (JObj msg1)"
    by (simp add: msg1_def create_message_event_def opt_str_def)
  have w2: "wf_json (JObj msg1_reordered)"
    by (simp add: msg1_reordered_def)
  have e: "json_eq (JObj (dict_pop ''signature'' msg1)) (JObj (dict_pop ''signature'' msg1_reordered))"
    by (simp add: msg1_def msg1_reordered_def create_message_event_def opt_str_def
        py_strip_def py_isspace_def dict_pop_def)
  have ne: "map fst msg1 \<noteq> map fst msg1_reordered"
    by (simp add: msg1_def msg1_reordered_def create_message_event_def)
  have c: "dict_get msg1 ''content'' = JObj [(''body'', JStr ''m1''), (''msgtype'', JStr ''m.text'')] \<and>
     dict_get msg1_reordered ''content'' =
       JObj [(''msgtype'', JStr ''m.text''), (''body'', JStr ''m1'')] \<and>
     dict_get msg1 ''signature'' = JStr [] \<and>
     dict_get msg1_reordered ''signature'' = JStr ''c2lnbmVk''"
    by (simp add: msg1_def msg1_reordered_def create_message_event_def dict_get_def
        py_strip_def py_isspace_def)
  from canonical_encoding_order_independent
    [OF w1 w2 e, of 0 "[msg1, msg1_reordered]" 1 "[msg1, msg1_reordered]" P keypair]
  show "wf_json (JObj msg1) \<and> wf_json (JObj msg1_reordered) \<and>
     json_eq (JObj (dict_pop ''signature'' msg1)) (JObj (dict_pop ''signature'' msg1_reordered)) \<and>
     map fst msg1 \<noteq> map fst msg1_reordered \<and>
     dict_get msg1 ''content'' = JObj [(''body'', JStr ''m1''), (''msgtype'', JStr ''m.text'')] \<and>
     dict_get msg1_reordered ''content'' =
       JObj [(''msgtype'', JStr ''m.text''), (''body'', JStr ''m1'')] \<and>
     dict_get msg1 ''signature'' = JStr [] \<and>
     dict_get msg1_reordered ''signature'' = JStr ''c2lnbmVk'' \<and>
     utf8_encode (canonical_json (dict_pop ''signature'' msg1)) =
       utf8_encode (canonical_json (dict_pop ''signature'' msg1_reordered)) \<and>
     compute_event_hash P msg1 = compute_event_hash P msg1_reordered \<and>
     dict_get (returned_dict (sign_event P 0 keypair [msg1, msg1_reordered])) ''signature'' =
       dict_get (returned_dict (sign_event P 1 keypair [msg1, msg1_reordered])) ''signature''"
    using w1 w2 e ne c by simp
qed

lemma create_message_event_sender [simp]:
  "dict_get (create_message_event i room s m ts par prev) ''sender_id'' = JStr s"
  by (simp add: create_message_event_def dict_get_def)

lemma create_message_event_prev [simp]:
  "dict_get (create_message_event i room s m ts par prev) ''prev_event_hash'' = opt_str prev"
  by (simp add: create_message_event_def dict_get_def)

lemma create_message_event_timestamp [simp]:
  "timestamp_key (create_message_event i room s m ts par prev) = JInt ts"
  by (simp add: create_message_event_def timestamp_key_def dict_get_default_def)

lemma create_message_event_number [simp]:
  "timestamp_number (create_message_event i room s m ts par prev) = ts"
  by (simp add: timestamp_number_def)

text \<open>
  C2. \<^verbatim>\<open>verify_hash_chain\<close> returns true exactly when, among the records of the sender
  sorted by \<^verbatim>\<open>timestamp_ms\<close> ascending, the first has no previous hash and every later one
  carries the hash of the record right before it; an input without records of the sender,
  and the empty input, are valid. (Timestamps are numbers; the sort is Python's stable
  sort.)
\<close>

theorem verify_hash_chain_correct:
  "(list_all (\<lambda>e. as_number (timestamp_key e) \<noteq> None) (sender_events events sid) \<longrightarrow>
      verify_hash_chain P events sid =
        Inr (chain_linked P (sort_key timestamp_number (sender_events events sid)))) \<and>
   (sender_events events sid = [] \<longrightarrow> verify_hash_chain P events sid = Inr True) \<and>
   verify_hash_chain P [] sid = Inr True"
proof (intro conjI impI)
  assume "list_all (\<lambda>e. as_number (timestamp_key e) \<noteq> None) (sender_events events sid)"
  then show "verify_hash_chain P events sid =
        Inr (chain_linked P (sort_key timestamp_number (sender_events events sid)))"
    by (rule verify_hash_chain_numbers)
next
  assume "sender_events events sid = []"
  then show "verify_hash_chain P events sid = Inr True"
    by (simp add: verify_hash_chain_def sort_by_timestamp_def)
next
  show "verify_hash_chain P [] sid = Inr True"
    by (simp add: verify_hash_chain_def sort_by_timestamp_def sender_events_def)
qed

lemma example_facts:
  "dict_get msg1 ''prev_event_hash'' = JNull"
  "dict_get (msg2 P) ''prev_event_hash'' = JStr (compute_event_hash P msg1)"
  "dict_get (msg3 P) ''prev_event_hash'' = JStr (compute_event_hash P (msg2 P))"
  "timestamp_key msg1 = JInt 1000"
  "timestamp_key (msg2 P) = JInt 2000"
  "timestamp_key (msg3 P) = JInt 3000"
  "timestamp_key msg_bob = JInt 2000"
  "timestamp_number msg1 = 1000"
  "timestamp_number (msg2 P) = 2000"
  "timestamp_number (msg3 P) = 3000"
  "timestamp_number msg_bob = 2000"
  "dict_get msg1 ''sender_id'' = JStr ''alice''"
  "dict_get (msg2 P) ''sender_id'' = JStr ''alice''"
  "dict_get (msg3 P) ''sender_id'' = JStr ''alice''"
  "dict_get msg_bob ''sender_id'' = JStr ''bob''"
  by (simp_all add: msg1_def msg2_def msg3_def msg_bob_def opt_str_def)

theorem verify_hash_chain_correct_witness:
  "\<forall>P. list_all (\<lambda>e. as_number (timestamp_key e) \<noteq> None)
          (sender_events [msg3 P, msg_bob, msg1, msg2 P] ''alice'') \<and>
        verify_hash_chain P [msg3 P, msg_bob, msg1, msg2 P] ''alice'' = Inr True \<and>
        list_all (\<lambda>e. as_number (timestamp_key e) \<noteq> None)
          (sender_events [msg2 P, msg_bob] ''alice'') \<and>
        verify_hash_chain P [msg2 P, msg_bob] ''alice'' = Inr False \<and>
        sender_events [msg_bob] ''alice'' = [] \<and>
        verify_hash_chain P [msg_bob] ''alice'' = Inr True"
proof
  fix P
  have s1: "sender_events [msg3 P, msg_bob, msg1, msg2 P] ''alice'' = [msg3 P, msg1, msg2 P]"
    and s2: "sender_events [msg2 P, msg_bob] ''alice'' = [msg2 P]"
    and s3: "sender_events [msg_bob] ''alice'' = []"
    by (simp_all add: sender_events_def example_facts)
  have n1: "list_all (\<lambda>e. as_number (timestamp_key e) \<noteq> None) [msg3 P, msg1, msg2 P]"
    and n2: "list_all (\<lambda>e. as_number (timestamp_key e) \<noteq> None) [msg2 P]"
    by (simp_all add: example_facts)
  have k1: "sort_key timestamp_number [msg3 P, msg1, msg2 P] = [msg1, msg2 P, msg3 P]"
    by (simp add: example_facts)
  have c1: "chain_linked P [msg1, msg2 P, msg3 P]" and c2: "\<not> chain_linked P [msg2 P]"
    by (simp_all add: chain_linked_def example_facts)
  have r1: "verify_hash_chain P [msg3 P, msg_bob, msg1, msg2 P] ''alice'' = Inr True"
    using verify_hash_chain_correct [of "[msg3 P, msg_bob, msg1, msg2 P]" "''alice''" P]
    unfolding s1 k1 using n1 c1 by simp
  have r2: "verify_hash_chain P [msg2 P, msg_bob] ''alice'' = Inr False"
    using verify_hash_chain_correct [of "[msg2 P, msg_bob]" "''alice''" P]
    unfolding s2 using n2 c2 by simp
  have r3: "verify_hash_chain P [msg_bob] ''alice'' = Inr True"
    using verify_hash_chain_correct [of "[msg_bob]" "''alice''" P] s3 by (simp add: chain_linked_def)
  show "list_all (\<lambda>e. as_number (timestamp_key e) \<noteq> None)
          (sender_events [msg3 P, msg_bob, msg1, msg2 P] ''alice'') \<and>
        verify_hash_chain P [msg3 P, msg_bob, msg1, msg2 P] ''alice'' = Inr True \<and>
        list_all (\<lambda>e. as_number (timestamp_key e) \<noteq> None)
          (sender_events [msg2 P, msg_bob] ''alice'') \<and>
        verify_hash_chain P [msg2 P, msg_bob] ''alice'' = Inr False \<and>
        sender_events [msg_bob] ''alice'' = [] \<and>
        verify_hash_chain P [msg_bob] ''alice'' = Inr True"
    unfolding s1 s2 s3 using n1 n2 r1 r2 r3 by simp
qed


text \<open>
  C10. \<^verbatim>\<open>sign_event\<close> does not mutate its input: every dictionary of the store before the
  call, the argument with its old \<^verbatim>\<open>signature\<close> among them, is the same after it, and
  the returned dictionary is a new one holding the non-signature fields of the input
  followed by the new \<^verbatim>\<open>signature\<close>.
\<close>

theorem sign_event_frame:
  assumes "event_dict < length h"
  shows "(\<forall>a < length h. snd (sign_event P event_dict keypair h) ! a = h ! a) \<and>
         fst (sign_event P event_dict keypair h) = length h \<and>
         length (snd (sign_event P event_dict keypair h)) = Suc (length h) \<and>
         returned_dict (sign_event P event_dict keypair h) =
           filter (\<lambda>kv. fst kv \<noteq> ''signature'') (h ! event_dict) @
             [(''signature'',
               JStr (KeyPair_sign P keypair
                 (utf8_encode (json_dumps
                    (JObj (filter (\<lambda>kv. fst kv \<noteq> ''signature'') (h ! event_dict)))))))]"
  by (simp add: sign_event_unfold returned_dict_def nth_append dict_pop_def canonical_json_def)

theorem sign_event_frame_witness:
  "\<forall>P keypair.
     (0::nat) < length [msg1_reordered] \<and>
     snd (sign_event P 0 keypair [msg1_reordered]) ! 0 = msg1_reordered \<and>
     dict_get (snd (sign_event P 0 keypair [msg1_reordered]) ! 0) ''signature'' = JStr ''c2lnbmVk'' \<and>
     fst (sign_event P 0 keypair [msg1_reordered]) = 1 \<and>
     map fst (returned_dict (sign_event P 0 keypair [msg1_reordered])) =
       [''content'', ''prev_event_hash'', ''parent_event_id'', ''type'', ''sender_id'',
        ''timestamp_ms'', ''room_id'', ''event_id'', ''signature'']"
proof (intro allI)
  fix P keypair
  have l: "(0::nat) < length [msg1_reordered]" by simp
  have g: "dict_get msg1_reordered ''signature'' = JStr ''c2lnbmVk''"
    by (simp add: msg1_reordered_def dict_get_def)
  have f: "map fst (filter (\<lambda>kv. fst kv \<noteq> ''signature'') msg1_reordered) =
       [''content'', ''prev_event_hash'', ''parent_event_id'', ''type'', ''sender_id'',
        ''timestamp_ms'', ''room_id'', ''event_id'']"
    by (simp add: msg1_reordered_def)
  from sign_event_frame [OF l, of P keypair]
  show "(0::nat) < length [msg1_reordered] \<and>
     snd (sign_event P 0 keypair [msg1_reordered]) ! 0 = msg1_reordered \<and>
     dict_get (snd (sign_event P 0 keypair [msg1_reordered]) ! 0) ''signature'' = JStr ''c2lnbmVk'' \<and>
     fst (sign_event P 0 keypair [msg1_reordered]) = 1 \<and>
     map fst (returned_dict (sign_event P 0 keypair [msg1_reordered])) =
       [''content'', ''prev_event_hash'', ''parent_event_id'', ''type'', ''sender_id'',
        ''timestamp_ms'', ''room_id'', ''event_id'', ''signature'']"
    using g f by simp
qed

lemma sender_events_mset:
  "mset events = mset events' \<Longrightarrow>
     mset (sender_events events sid) = mset (sender_events events' sid)"
  by (metis sender_events_def mset_filter)

lemma mset_eq_short:
  assumes "mset xs = mset ys" and "length xs \<le> 1"
  shows "xs = ys"
proof -
  from assms(1) have "length xs = length ys"
    by (rule mset_eq_length)
  with assms show ?thesis
    by (cases xs; cases ys) auto
qed

lemma sort_by_timestamp_permutation:
  assumes "mset xs = mset ys" and "inj_on timestamp_number (set xs)"
  shows "sort_by_timestamp xs = sort_by_timestamp ys"
proof (cases "length xs \<le> 1")
  case True
  with assms(1) have "xs = ys" by (rule mset_eq_short)
  then show ?thesis by simp
next
  case False
  from assms(1) have len: "length xs = length ys" by (rule mset_eq_length)
  from assms(1) have sets: "set xs = set ys" by (rule mset_eq_setD)
  have "sort_key timestamp_number xs = sort_key timestamp_number ys"
    by (rule sort_key_inj_key_eq) (simp_all add: assms)
  with False show ?thesis
    unfolding sort_by_timestamp_def list_all_iff list_ex_iff len [symmetric] sets [symmetric]
    by simp
qed

text \<open>
  C4, as amended. The result of \<^verbatim>\<open>verify_hash_chain\<close> is the same for every permutation
  of its input list when the sender's records have pairwise different timestamps. The
  sort is by \<^verbatim>\<open>timestamp_ms\<close> alone and stable: records with equal timestamps stay in
  their input order, and nothing breaks the tie by the event id.
\<close>

theorem verify_hash_chain_permutation:
  assumes "mset events = mset events'"
    and "inj_on timestamp_number (set (sender_events events sid))"
  shows "verify_hash_chain P events sid = verify_hash_chain P events' sid"
proof -
  have "sort_by_timestamp (sender_events events sid) =
        sort_by_timestamp (sender_events events' sid)"
    using sender_events_mset [OF assms(1)] assms(2) by (rule sort_by_timestamp_permutation)
  then show ?thesis
    by (simp add: verify_hash_chain_def)
qed

lemma msg_tie_facts:
  "dict_get (msg_tie P) ''prev_event_hash'' = JStr (compute_event_hash P msg1)"
  "timestamp_key (msg_tie P) = JInt 1000"
  "timestamp_number (msg_tie P) = 1000"
  "dict_get (msg_tie P) ''sender_id'' = JStr ''alice''"
  by (simp_all add: msg_tie_def opt_str_def)

text \<open>
  With equal timestamps the order of the input decides: a record and its successor
  verify in one order and fail in the other.
\<close>

theorem verify_hash_chain_permutation_counterexample:
  "\<forall>P. mset [msg1, msg_tie P] = mset [msg_tie P, msg1] \<and>
        verify_hash_chain P [msg1, msg_tie P] ''alice'' = Inr True \<and>
        verify_hash_chain P [msg_tie P, msg1] ''alice'' = Inr False"
  by (simp add: verify_hash_chain_def sort_by_timestamp_def sender_events_def
      example_facts msg_tie_facts Let_def)

theorem verify_hash_chain_permutation_witness:
  "\<forall>P. mset [msg3 P, msg_bob, msg1, msg2 P] = mset [msg1, msg2 P, msg_bob, msg3 P] \<and>
        inj_on timestamp_number (set (sender_events [msg3 P, msg_bob, msg1, msg2 P] ''alice'')) \<and>
        verify_hash_chain P [msg3 P, msg_bob, msg1, msg2 P] ''alice'' =
          verify_hash_chain P [msg1, msg2 P, msg_bob, msg3 P] ''alice''"
proof
  fix P
  have m: "mset [msg3 P, msg_bob, msg1, msg2 P] = mset [msg1, msg2 P, msg_bob, msg3 P]"
    by (simp add: add.commute add.left_commute)
  have s: "sender_events [msg3 P, msg_bob, msg1, msg2 P] ''alice'' = [msg3 P, msg1, msg2 P]"
    by (simp add: sender_events_def example_facts)
  have i: "inj_on timestamp_number (set (sender_events [msg3 P, msg_bob, msg1, msg2 P] ''alice''))"
    unfolding s by (auto simp: inj_on_def example_facts)
  from verify_hash_chain_permutation [OF m i, of P] m i
  show "mset [msg3 P, msg_bob, msg1, msg2 P] = mset [msg1, msg2 P, msg_bob, msg3 P] \<and>
        inj_on timestamp_number (set (sender_events [msg3 P, msg_bob, msg1, msg2 P] ''alice'')) \<and>
        verify_hash_chain P [msg3 P, msg_bob, msg1, msg2 P] ''alice'' =
          verify_hash_chain P [msg1, msg2 P, msg_bob, msg3 P] ''alice''"
    by simp
qed

lemma chain_linked_nth:
  "chain_linked P rs \<longleftrightarrow>
     (rs \<noteq> [] \<longrightarrow> dict_get (rs ! 0) ''prev_event_hash'' = JNull) \<and>
     (\<forall>j. Suc j < length rs \<longrightarrow>
        dict_get (rs ! Suc j) ''prev_event_hash'' = JStr (compute_event_hash P (rs ! j)))"
proof -
  have "list_all (\<lambda>pe. dict_get (snd pe) ''prev_event_hash'' = JStr (compute_event_hash P (fst pe)))
          (zip rs (tl rs)) \<longleftrightarrow>
        (\<forall>j. Suc j < length rs \<longrightarrow>
          dict_get (rs ! Suc j) ''prev_event_hash'' = JStr (compute_event_hash P (rs ! j)))"
    by (auto simp: list_all_length nth_tl)
  then show ?thesis
    by (cases rs) (simp_all add: chain_linked_def)
qed

lemma sender_events_all:
  "\<forall>r\<in>set rs. dict_get r ''sender_id'' = JStr sid \<Longrightarrow> sender_events rs sid = rs"
  by (simp add: sender_events_def)

lemma verify_hash_chain_sorted:
  assumes "\<forall>r\<in>set rs. dict_get r ''sender_id'' = JStr sid"
    and "\<forall>r\<in>set rs. as_number (timestamp_key r) \<noteq> None"
    and "sorted_wrt (<) (map timestamp_number rs)"
  shows "verify_hash_chain P rs sid = Inr (chain_linked P rs)"
proof -
  from assms(3) have "sorted (map timestamp_number rs)"
    by (rule strict_sorted_imp_sorted)
  then have "sort_key timestamp_number rs = rs"
    by (rule sort_key_id_if_sorted)
  moreover from assms(2) have "list_all (\<lambda>e. as_number (timestamp_key e) \<noteq> None) (sender_events rs sid)"
    by (simp add: sender_events_all [OF assms(1)] list_all_iff)
  ultimately show ?thesis
    using verify_hash_chain_numbers [of rs sid P] by (simp add: sender_events_all [OF assms(1)])
qed

lemma remove_nth_facts:
  assumes "0 < i" and "Suc i < length rs"
  shows "length (remove_nth i rs) = length rs - 1"
    and "remove_nth i rs ! (i - 1) = rs ! (i - 1)"
    and "remove_nth i rs ! i = rs ! Suc i"
    and "set (remove_nth i rs) \<subseteq> set rs"
  using assms by (auto simp: remove_nth_def nth_append dest: in_set_takeD in_set_dropD)

lemma sorted_wrt_remove_nth_list:
  assumes "sorted_wrt R zs"
  shows "sorted_wrt R (remove_nth i zs)"
proof -
  from assms have "sorted_wrt R (take i zs @ drop i zs)" by simp
  then have "sorted_wrt R (take i zs) \<and> sorted_wrt R (drop i zs) \<and>
      (\<forall>x\<in>set (take i zs). \<forall>y\<in>set (drop i zs). R x y)"
    by (rule sorted_wrt_append [THEN iffD1])
  then have a: "sorted_wrt R (take i zs)"
    and b: "\<forall>x\<in>set (take i zs). \<forall>y\<in>set (drop i zs). R x y"
    by blast+
  from assms have c: "sorted_wrt R (drop (Suc i) zs)"
    by (rule sorted_wrt_drop)
  have d: "set (drop (Suc i) zs) \<subseteq> set (drop i zs)"
    by (rule set_drop_subset_set_drop) simp
  from b d have "\<forall>x\<in>set (take i zs). \<forall>y\<in>set (drop (Suc i) zs). R x y"
    by blast
  with a c show ?thesis
    by (simp add: remove_nth_def sorted_wrt_append)
qed

lemma sorted_wrt_remove_nth:
  "sorted_wrt R (map f rs) \<Longrightarrow> sorted_wrt R (map f (remove_nth i rs))"
  using sorted_wrt_remove_nth_list [of R "map f rs" i]
  by (simp add: remove_nth_def take_map drop_map)

text \<open>
  C3. Deletion detection: a sequence of at least three records of one sender, with
  strictly increasing timestamps, whose first record has no previous hash and whose
  later records each carry the hash of their predecessor, verifies; with any middle
  record removed it does not. The hashes of the records of the chain are taken to be
  pairwise different (no collision of the digest within the chain).
\<close>

theorem deletion_detected:
  assumes sender: "list_all (\<lambda>r. dict_get r ''sender_id'' = JStr sid) rs"
    and numbers: "list_all (\<lambda>r. as_number (timestamp_key r) \<noteq> None) rs"
    and increasing: "sorted_wrt (<) (map timestamp_number rs)"
    and linked: "chain_linked P rs"
    and no_collision: "distinct (map (compute_event_hash P) rs)"
    and "3 \<le> length rs" and "0 < i" and "Suc i < length rs"
  shows "verify_hash_chain P rs sid = Inr True \<and>
         verify_hash_chain P (remove_nth i rs) sid = Inr False"
proof -
  let ?ys = "remove_nth i rs"
  note rm = remove_nth_facts [OF assms(7,8)]
  from sender have s: "\<forall>r\<in>set rs. dict_get r ''sender_id'' = JStr sid"
    by (simp add: list_all_iff)
  from numbers have n: "\<forall>r\<in>set rs. as_number (timestamp_key r) \<noteq> None"
    by (simp add: list_all_iff)
  have full: "verify_hash_chain P rs sid = Inr True"
    using verify_hash_chain_sorted [OF s n increasing, of P] linked by simp
  have "verify_hash_chain P ?ys sid = Inr (chain_linked P ?ys)"
  proof (rule verify_hash_chain_sorted)
    show "\<forall>r\<in>set ?ys. dict_get r ''sender_id'' = JStr sid"
      using s rm(4) by blast
    show "\<forall>r\<in>set ?ys. as_number (timestamp_key r) \<noteq> None"
      using n rm(4) by blast
    show "sorted_wrt (<) (map timestamp_number ?ys)"
      using increasing by (rule sorted_wrt_remove_nth)
  qed
  moreover have "\<not> chain_linked P ?ys"
  proof
    assume "chain_linked P ?ys"
    moreover from assms(7,8) have "Suc (i - 1) < length ?ys" and "Suc (i - 1) = i"
      by (simp_all add: rm(1))
    ultimately have "dict_get (?ys ! i) ''prev_event_hash'' = JStr (compute_event_hash P (?ys ! (i - 1)))"
      unfolding chain_linked_nth by metis
    then have "dict_get (rs ! Suc i) ''prev_event_hash'' = JStr (compute_event_hash P (rs ! (i - 1)))"
      by (simp only: rm)
    moreover from linked assms(8) have "dict_get (rs ! Suc i) ''prev_event_hash'' = JStr (compute_event_hash P (rs ! i))"
      unfolding chain_linked_nth by blast
    ultimately have "map (compute_event_hash P) rs ! (i - 1) = map (compute_event_hash P) rs ! i"
      using assms(8) by simp
    moreover have "i - 1 < length (map (compute_event_hash P) rs)"
      and "i < length (map (compute_event_hash P) rs)"
      using assms(8) by simp_all
    ultimately have "i - 1 = i"
      using no_collision by (simp only: nth_eq_iff_index_eq)
    with assms(7) show False by simp
  qed
  ultimately show ?thesis
    using full by simp
qed


lemmas evaluate_canonical_json =
  canonical_json_def create_message_event_def dict_pop_def opt_str_def py_strip_def
  py_isspace_def encode_basestring_ascii_def escape_char_def int_repr_def digit_char_def
  compute_event_hash_def utf8_encode_def hex4_def

lemma stub_hash_msg1:
  "compute_event_hash stub_primitives msg1 = ''{\"content\":{\"body\":\"m1\",''"
  by (simp add: evaluate_canonical_json msg1_def stub_primitives_def)

lemma stub_hash_msg2:
  "compute_event_hash stub_primitives (msg2 stub_primitives) = ''{\"content\":{\"body\":\"m2\",''"
  unfolding msg2_def stub_hash_msg1
  by (simp add: evaluate_canonical_json stub_primitives_def)

lemma stub_hash_msg3:
  "compute_event_hash stub_primitives (msg3 stub_primitives) = ''{\"content\":{\"body\":\"m3\",''"
  unfolding msg3_def stub_hash_msg2
  by (simp add: evaluate_canonical_json stub_primitives_def)

lemma stub_hashes_distinct:
  "distinct (map (compute_event_hash stub_primitives)
     [msg1, msg2 stub_primitives, msg3 stub_primitives])"
  by (simp add: stub_hash_msg1 stub_hash_msg2 stub_hash_msg3)

theorem deletion_detected_witness:
  "list_all (\<lambda>r. dict_get r ''sender_id'' = JStr ''alice'')
     [msg1, msg2 stub_primitives, msg3 stub_primitives] \<and>
   list_all (\<lambda>r. as_number (timestamp_key r) \<noteq> None)
     [msg1, msg2 stub_primitives, msg3 stub_primitives] \<and>
   sorted_wrt (<) (map timestamp_number [msg1, msg2 stub_primitives, msg3 stub_primitives]) \<and>
   chain_linked stub_primitives [msg1, msg2 stub_primitives, msg3 stub_primitives] \<and>
   distinct (map (compute_event_hash stub_primitives)
     [msg1, msg2 stub_primitives, msg3 stub_primitives]) \<and>
   remove_nth 1 [msg1, msg2 stub_primitives, msg3 stub_primitives] =
     [msg1, msg3 stub_primitives] \<and>
   verify_hash_chain stub_primitives [msg1, msg2 stub_primitives, msg3 stub_primitives]
     ''alice'' = Inr True \<and>
   verify_hash_chain stub_primitives [msg1, msg3 stub_primitives] ''alice'' = Inr False"
proof -
  let ?rs = "[msg1, msg2 stub_primitives, msg3 stub_primitives]"
  have a: "list_all (\<lambda>r. dict_get r ''sender_id'' = JStr ''alice'') ?rs"
    and b: "list_all (\<lambda>r. as_number (timestamp_key r) \<noteq> None) ?rs"
    and c: "sorted_wrt (<) (map timestamp_number ?rs)"
    and d: "chain_linked stub_primitives ?rs"
    by (simp_all add: example_facts chain_linked_def)
  have r: "remove_nth 1 ?rs = [msg1, msg3 stub_primitives]"
    by (simp add: remove_nth_def)
  from deletion_detected [OF a b c d stub_hashes_distinct, of 1] a b c d stub_hashes_distinct r
  show ?thesis by simp
qed

subsection \<open>Base64 decoding and verification\<close>

text \<open>
  The decoder reads over the characters of ASCII outside the alphabet, so a text and
  the text without them decode alike; a text without \<^verbatim>\<open>=\<close> is refused exactly when
  the number of its characters of the alphabet is not a multiple of four.
\<close>

lemma verify_signature_with_public_key_iff:
  "verify_signature_with_public_key P data sg pk \<longleftrightarrow>
     length pk = 32 \<and>
     (\<exists>s sb. sg = JStr s \<and> b64decode s = Inr sb \<and> ed25519_verify P pk sb data)"
  by (cases sg)
    (auto simp: verify_signature_with_public_key_def verify_signature_try_def
      from_public_bytes_def b64decode_value_def public_key_verify_def
      split: sum.splits)

lemma a2b_base64_filter:
  "a2b_base64 (filter (\<lambda>c. \<not> b64_discarded c) s) quad_pos leftchar pads bin_data =
     a2b_base64 s quad_pos leftchar pads bin_data"
  by (induction s quad_pos leftchar pads bin_data rule: a2b_base64.induct)
    (auto simp: b64_discarded_def split: option.splits)

lemma b64decode_filter:
  "b64decode (filter (\<lambda>c. \<not> b64_discarded c) s) = b64decode s"
proof -
  have "(\<exists>c \<in> set (filter (\<lambda>c. \<not> b64_discarded c) s). 128 \<le> (of_char c :: nat)) \<longleftrightarrow>
        (\<exists>c \<in> set s. 128 \<le> (of_char c :: nat))"
    by (auto simp: b64_discarded_def)
  then show ?thesis
    unfolding b64decode_def by (simp only: a2b_base64_filter)
qed

lemma a2b_base64_raises_iff:
  "quad_pos < 4 \<Longrightarrow> CHR ''='' \<notin> set s \<Longrightarrow>
     (\<exists>e. a2b_base64 s quad_pos leftchar pads bin_data = Inl e) \<longleftrightarrow>
     (quad_pos + length (filter (\<lambda>c. b64_value c \<noteq> None) s)) mod 4 \<noteq> 0"
proof (induction s quad_pos leftchar pads bin_data rule: a2b_base64.induct)
  case (1 quad_pos leftchar pads bin_data)
  then show ?case by simp
next
  case (2 c cs quad_pos leftchar pads bin_data)
  from "2.prems" have ne: "c \<noteq> CHR ''=''" and cs: "CHR ''='' \<notin> set cs" by auto
  show ?case
  proof (cases "b64_value c")
    case None
    with "2.IH"(2) [OF ne None "2.prems"(1) cs] ne show ?thesis by simp
  next
    case (Some v)
    from "2.prems"(1) consider "quad_pos = 0" | "quad_pos = 1" | "quad_pos = 2" | "quad_pos = 3"
      by linarith
    then show ?thesis
    proof cases
      case 1
      with "2.IH"(3) [OF ne Some 1 _ cs] ne Some show ?thesis by simp
    next
      case 2
      with "2.IH"(4) [OF ne Some _ 2 _ cs] ne Some show ?thesis by simp
    next
      case 3
      with "2.IH"(5) [OF ne Some _ _ 3 _ cs] ne Some show ?thesis by simp
    next
      case 4
      with "2.IH"(6) [OF ne Some _ _ _ _ cs] ne Some show ?thesis by simp
    qed
  qed
qed

lemma b64decode_raises_non_ascii:
  "\<exists>c \<in> set s. 128 \<le> (of_char c :: nat) \<Longrightarrow> b64decode s = Inl ValueError"
  by (simp add: b64decode_def)

lemma b64decode_raises_incomplete:
  assumes "CHR ''='' \<notin> set s" and "length (filter (\<lambda>c. b64_value c \<noteq> None) s) mod 4 \<noteq> 0"
  shows "\<exists>e. b64decode s = Inl e"
proof (cases "\<exists>c \<in> set s. 128 \<le> (of_char c :: nat)")
  case True
  then show ?thesis by (simp add: b64decode_def)
next
  case False
  from a2b_base64_raises_iff [of 0 s 0 0 "[]"] assms
  have "\<exists>e. a2b_base64 s 0 0 0 [] = Inl e" by simp
  with False show ?thesis by (simp add: b64decode_def)
qed

lemma verify_signature_raises:
  "b64decode s = Inl e \<Longrightarrow> \<not> verify_signature_with_public_key P data (JStr s) pk"
  by (simp add: verify_signature_with_public_key_iff)

lemma b64decode_signature_text: "b64decode signature_text = Inr (key32 @ ''data'')"
  by (simp add: signature_text_def key32_def b64decode_def b64_value_def char_of_def bit_0)

lemma filter_signature_text_malformed:
  "filter (\<lambda>c. \<not> b64_discarded c) signature_text_malformed = signature_text"
  by (simp add: signature_text_malformed_def signature_text_def b64_discarded_def b64_value_def)

lemma b64decode_signature_text_malformed:
  "b64decode signature_text_malformed = Inr (key32 @ ''data'')"
  using b64decode_filter [of signature_text_malformed]
  by (simp only: filter_signature_text_malformed b64decode_signature_text)

text \<open>
  C5 (amended). Signature verification never throws: every exception raised in the body
  of \<^verbatim>\<open>verify_signature_with_public_key\<close> becomes the result \<open>False\<close>, and the result is
  \<open>True\<close> exactly when the key has 32 bytes, the signature is a string that
  \<^verbatim>\<open>base64.b64decode\<close> decodes, and the decoded bytes are a valid signature of the data.
  So the result is \<open>False\<close> for a signature that is not a string; for text that
  \<^verbatim>\<open>base64.b64decode\<close> refuses, which it does for text with a character outside ASCII
  and for text without \<^verbatim>\<open>=\<close> whose characters of the Base64 alphabet do not come in
  groups of four; for a public key that is not 32 bytes long; and for data that the
  decoded signature does not match. Characters of ASCII outside the alphabet are not
  refused: the decoder reads over them, and a text verifies exactly as the text without
  them. \<^verbatim>\<open>verify_event_signature\<close> is \<open>False\<close> when the record has no \<^verbatim>\<open>signature\<close>
  field or an empty one.
\<close>

theorem verification_returns_false:
  "(verify_signature_with_public_key P data sg pk \<longleftrightarrow>
      length pk = 32 \<and>
      (\<exists>s sb. sg = JStr s \<and> b64decode s = Inr sb \<and> ed25519_verify P pk sb data)) \<and>
   (verify_signature_try P data sg pk = Inl e \<longrightarrow>
      verify_signature_with_public_key P data sg pk = False) \<and>
   ((\<forall>s. sg \<noteq> JStr s) \<longrightarrow> verify_signature_with_public_key P data sg pk = False) \<and>
   (b64decode s = Inl e' \<longrightarrow> verify_signature_with_public_key P data (JStr s) pk = False) \<and>
   ((\<exists>c \<in> set s. 128 \<le> (of_char c :: nat)) \<longrightarrow>
      verify_signature_with_public_key P data (JStr s) pk = False) \<and>
   (CHR ''='' \<notin> set s \<and> length (filter (\<lambda>c. b64_value c \<noteq> None) s) mod 4 \<noteq> 0 \<longrightarrow>
      verify_signature_with_public_key P data (JStr s) pk = False) \<and>
   (length pk \<noteq> 32 \<longrightarrow> verify_signature_with_public_key P data sg pk = False) \<and>
   (b64decode s = Inr sb \<and> \<not> ed25519_verify P pk sb data \<longrightarrow>
      verify_signature_with_public_key P data (JStr s) pk = False) \<and>
   verify_signature_with_public_key P data (JStr s) pk =
     verify_signature_with_public_key P data (JStr (filter (\<lambda>c. \<not> b64_discarded c) s)) pk \<and>
   (map_of event_dict ''signature'' = None \<longrightarrow> verify_event_signature P event_dict pk = False) \<and>
   (map_of event_dict ''signature'' = Some (JStr []) \<longrightarrow>
      verify_event_signature P event_dict pk = False)"
proof (intro conjI impI)
  show "verify_signature_with_public_key P data sg pk \<longleftrightarrow>
      length pk = 32 \<and>
      (\<exists>s sb. sg = JStr s \<and> b64decode s = Inr sb \<and> ed25519_verify P pk sb data)"
    by (rule verify_signature_with_public_key_iff)
next
  assume "verify_signature_try P data sg pk = Inl e"
  then show "verify_signature_with_public_key P data sg pk = False"
    by (simp add: verify_signature_with_public_key_def)
next
  assume "\<forall>s. sg \<noteq> JStr s"
  then show "verify_signature_with_public_key P data sg pk = False"
    by (simp add: verify_signature_with_public_key_iff)
next
  assume "b64decode s = Inl e'"
  then show "verify_signature_with_public_key P data (JStr s) pk = False"
    by (simp add: verify_signature_raises)
next
  assume "\<exists>c \<in> set s. 128 \<le> (of_char c :: nat)"
  then have "b64decode s = Inl ValueError"
    by (rule b64decode_raises_non_ascii)
  then show "verify_signature_with_public_key P data (JStr s) pk = False"
    by (simp add: verify_signature_raises)
next
  assume "CHR ''='' \<notin> set s \<and> length (filter (\<lambda>c. b64_value c \<noteq> None) s) mod 4 \<noteq> 0"
  then obtain x where "b64decode s = Inl x"
    using b64decode_raises_incomplete [of s] by blast
  then show "verify_signature_with_public_key P data (JStr s) pk = False"
    by (simp add: verify_signature_raises)
next
  assume "length pk \<noteq> 32"
  then show "verify_signature_with_public_key P data sg pk = False"
    by (simp add: verify_signature_with_public_key_iff)
next
  assume "b64decode s = Inr sb \<and> \<not> ed25519_verify P pk sb data"
  then show "verify_signature_with_public_key P data (JStr s) pk = False"
    by (simp add: verify_signature_with_public_key_iff)
next
  show "verify_signature_with_public_key P data (JStr s) pk =
     verify_signature_with_public_key P data (JStr (filter (\<lambda>c. \<not> b64_discarded c) s)) pk"
    by (simp add: verify_signature_with_public_key_iff b64decode_filter)
next
  assume "map_of event_dict ''signature'' = None"
  then show "verify_event_signature P event_dict pk = False"
    by (simp add: verify_event_signature_def dict_get_def)
next
  assume "map_of event_dict ''signature'' = Some (JStr [])"
  then show "verify_event_signature P event_dict pk = False"
    by (simp add: verify_event_signature_def dict_get_def)
qed

theorem verification_returns_false_witness:
  "verify_signature_try stub_primitives ''data'' (JInt 5) key32 = Inl TypeError \<and>
   verify_signature_with_public_key stub_primitives ''data'' (JInt 5) key32 = False \<and>
   b64decode ''abc'' = Inl BinasciiError \<and>
   CHR ''='' \<notin> set ''abc'' \<and>
   length (filter (\<lambda>c. b64_value c \<noteq> None) ''abc'') mod 4 \<noteq> 0 \<and>
   verify_signature_with_public_key stub_primitives ''data'' (JStr ''abc'') key32 = False \<and>
   128 \<le> (of_char (CHR 0xE9) :: nat) \<and>
   b64decode (CHR 0xE9 # signature_text) = Inl ValueError \<and>
   verify_signature_with_public_key stub_primitives ''data'' (JStr (CHR 0xE9 # signature_text)) key32
     = False \<and>
   length ''short'' \<noteq> 32 \<and>
   verify_signature_with_public_key stub_primitives ''data'' (JStr signature_text) ''short'' = False \<and>
   b64decode signature_text = Inr (key32 @ ''data'') \<and>
   \<not> ed25519_verify stub_primitives key32 (key32 @ ''data'') ''other'' \<and>
   verify_signature_with_public_key stub_primitives ''other'' (JStr signature_text) key32 = False \<and>
   verify_signature_with_public_key stub_primitives ''data'' (JStr signature_text) key32 = True \<and>
   filter (\<lambda>c. \<not> b64_discarded c) signature_text_malformed = signature_text \<and>
   verify_signature_with_public_key stub_primitives ''data'' (JStr signature_text_malformed) key32
     = True \<and>
   map_of [(''sender_id'', JStr ''alice'')] ''signature'' = None \<and>
   verify_event_signature stub_primitives [(''sender_id'', JStr ''alice'')] key32 = False \<and>
   map_of msg1 ''signature'' = Some (JStr []) \<and>
   verify_event_signature stub_primitives msg1 key32 = False"
proof -
  have a: "verify_signature_try stub_primitives ''data'' (JInt 5) key32 = Inl TypeError"
    by (simp add: verify_signature_try_def from_public_bytes_def b64decode_value_def key32_def)
  have b: "b64decode ''abc'' = Inl BinasciiError"
    by (simp add: b64decode_def b64_value_def)
  have c: "CHR ''='' \<notin> set ''abc'' \<and>
      length (filter (\<lambda>c. b64_value c \<noteq> None) ''abc'') mod 4 \<noteq> 0"
    by (simp add: b64_value_def)
  have d: "128 \<le> (of_char (CHR 0xE9) :: nat)" by simp
  then have d': "\<exists>c \<in> set (CHR 0xE9 # signature_text). 128 \<le> (of_char c :: nat)" by simp
  then have e: "b64decode (CHR 0xE9 # signature_text) = Inl ValueError"
    by (rule b64decode_raises_non_ascii)
  have f: "length ''short'' \<noteq> 32" by simp
  have g: "b64decode signature_text = Inr (key32 @ ''data'')"
    by (rule b64decode_signature_text)
  have h: "\<not> ed25519_verify stub_primitives key32 (key32 @ ''data'') ''other''"
    by (simp add: stub_primitives_def)
  have i: "verify_signature_with_public_key stub_primitives ''data'' (JStr signature_text) key32
      = True"
    by (simp add: verify_signature_with_public_key_iff g stub_primitives_def key32_def)
  have j: "filter (\<lambda>c. \<not> b64_discarded c) signature_text_malformed = signature_text"
    by (rule filter_signature_text_malformed)
  have k: "map_of [(''sender_id'', JStr ''alice'')] ''signature'' = None" by simp
  have l: "map_of msg1 ''signature'' = Some (JStr [])"
    by (simp add: msg1_def create_message_event_def)
  note T = verification_returns_false
  have 1: "verify_signature_with_public_key stub_primitives ''data'' (JInt 5) key32 = False"
    using T [of stub_primitives "''data''" "JInt 5" key32 TypeError] a by blast
  have 2: "verify_signature_with_public_key stub_primitives ''data'' (JStr ''abc'') key32 = False"
    using T [of stub_primitives "''data''" _ key32 _ "''abc''" BinasciiError] b c by blast
  have 3: "verify_signature_with_public_key stub_primitives ''data''
      (JStr (CHR 0xE9 # signature_text)) key32 = False"
    using T [of stub_primitives "''data''" _ key32 _ "CHR 0xE9 # signature_text" ValueError] d' e
    by blast
  have 4: "verify_signature_with_public_key stub_primitives ''data'' (JStr signature_text) ''short''
      = False"
    using T [of stub_primitives "''data''" "JStr signature_text" "''short''"] f by blast
  have 5: "verify_signature_with_public_key stub_primitives ''other'' (JStr signature_text) key32
      = False"
    using T [of stub_primitives "''other''" _ key32 _ signature_text _ "key32 @ ''data''"] g h
    by blast
  have 6: "verify_signature_with_public_key stub_primitives ''data''
      (JStr signature_text_malformed) key32 = True"
  proof -
    from T [of stub_primitives "''data''" JNull key32 TypeError signature_text_malformed
        TypeError "[]" "[]"]
    have "verify_signature_with_public_key stub_primitives ''data''
        (JStr signature_text_malformed) key32 =
      verify_signature_with_public_key stub_primitives ''data''
        (JStr (filter (\<lambda>c. \<not> b64_discarded c) signature_text_malformed)) key32"
      by (elim conjE) assumption
    with i j show ?thesis by simp
  qed
  have 7: "verify_event_signature stub_primitives [(''sender_id'', JStr ''alice'')] key32 = False"
    using T [of stub_primitives _ _ key32 _ _ _ _ "[(''sender_id'', JStr ''alice'')]"] k by blast
  have 8: "verify_event_signature stub_primitives msg1 key32 = False"
    using T [of stub_primitives _ _ key32 _ _ _ _ msg1] l by blast
  from a b c d e f g h i j k l 1 2 3 4 5 6 7 8 show ?thesis
    by (simp only: simp_thms)
qed

text \<open>
  C5 as the specification words it, false for every malformed signature text, does not
  hold. The text \<open>signature_text_malformed\<close> is not Base64: it has exclamation marks,
  a line feed, a space and an asterisk in it. It decodes to the bytes that
  \<open>signature_text\<close> stands for, and verification returns for it what Ed25519 says of
  those bytes: \<open>True\<close> where they are the signature of the data. In general, an
  exclamation mark put before a signature text never changes the result.
\<close>

theorem malformed_signature_verifies:
  "\<forall>P data pk s.
     CHR ''!'' \<in> set signature_text_malformed \<and>
     b64_value (CHR ''!'') = None \<and>
     b64decode signature_text_malformed = Inr (key32 @ ''data'') \<and>
     verify_signature_with_public_key stub_primitives ''data'' (JStr signature_text_malformed) key32
       = True \<and>
     verify_signature_with_public_key P data (JStr signature_text_malformed) key32 =
       ed25519_verify P key32 (key32 @ ''data'') data \<and>
     verify_signature_with_public_key P data (JStr (CHR ''!'' # s)) pk =
       verify_signature_with_public_key P data (JStr s) pk"
proof (intro allI conjI)
  fix P :: primitives and data pk :: bytes and s :: string
  show "CHR ''!'' \<in> set signature_text_malformed"
    by (simp add: signature_text_malformed_def)
  show "b64_value (CHR ''!'') = None"
    by (simp add: b64_value_def)
  show "b64decode signature_text_malformed = Inr (key32 @ ''data'')"
    by (rule b64decode_signature_text_malformed)
  have k: "length key32 = 32" by (simp add: key32_def)
  show "verify_signature_with_public_key stub_primitives ''data''
      (JStr signature_text_malformed) key32 = True"
    by (simp add: verify_signature_with_public_key_iff b64decode_signature_text_malformed k
        stub_primitives_def)
  show "verify_signature_with_public_key P data (JStr signature_text_malformed) key32 =
       ed25519_verify P key32 (key32 @ ''data'') data"
    by (simp add: verify_signature_with_public_key_iff b64decode_signature_text_malformed k)
  have "b64decode (CHR ''!'' # s) = b64decode s"
    by (simp add: b64decode_def b64_value_def)
  then show "verify_signature_with_public_key P data (JStr (CHR ''!'' # s)) pk =
       verify_signature_with_public_key P data (JStr s) pk"
    by (simp add: verify_signature_with_public_key_iff)
qed

section \<open>Properties of event validation\<close>

lemma model_validate_accepts_iff:
  "model_validate now_ms data = Inr data \<longleftrightarrow>
     0 < timestamp_ms data \<and> timestamp_ms data \<le> now_ms + 3600000 \<and>
     py_contains ''::'' (event_id data) \<and> length (py_split (event_id data) ''::'') = 3 \<and>
     type data \<in> set valid_types"
  by (auto simp: model_validate_def validate_event_id_def validate_timestamp_def
      validate_event_type_def errors_of_def Let_def)

lemma model_validate_result:
  "model_validate now_ms data = Inr e \<Longrightarrow> e = data"
  by (simp add: model_validate_def Let_def split: if_splits)

lemma model_validate_rejects:
  assumes "timestamp_ms data \<le> 0 \<or> timestamp_ms data > now_ms + 3600000 \<or>
    length (py_split (event_id data) ''::'') \<noteq> 3 \<or> type data \<notin> set valid_types"
  shows "\<exists>errors. model_validate now_ms data = Inl errors"
proof (cases "model_validate now_ms data")
  case (Inl errors)
  then show ?thesis by blast
next
  case (Inr e)
  then have "model_validate now_ms data = Inr data"
    by (simp add: model_validate_result)
  with assms show ?thesis
    by (auto simp: model_validate_accepts_iff)
qed

lemma model_validate_examples:
  "\<exists>errors. model_validate 1704067200000
      (event_other_room\<lparr>event_id := ''room::onlytwo''\<rparr>) = Inl errors"
  "\<exists>errors. model_validate 1704067200000
      (event_other_room\<lparr>timestamp_ms := 1704067200000 + 7200000\<rparr>) = Inl errors"
  "\<exists>errors. model_validate 1704067200000
      (event_other_room\<lparr>type := ''m.room.unknown''\<rparr>) = Inl errors"
  "model_validate 1704067200000 (event_other_room\<lparr>timestamp_ms := 1704067200000 + 1800000\<rparr>) =
     Inr (event_other_room\<lparr>timestamp_ms := 1704067200000 + 1800000\<rparr>)"
  by (simp_all add: model_validate_def validate_event_id_def validate_timestamp_def
      validate_event_type_def errors_of_def Let_def event_other_room_def py_split_def valid_types_def)

text \<open>
  C6. Event validation fails when the timestamp is not positive or more than one hour
  ahead of the clock, when the event id does not split into exactly three parts at
  \<^verbatim>\<open>::\<close>, when the first part of the id differs from \<^verbatim>\<open>room_id\<close>, or when the type is
  not one of the six kinds. The code rejects for the timestamp, the number of parts and
  the type (\<open>model_validate_rejects\<close>). The comparison with \<^verbatim>\<open>room_id\<close> is written in
  \<^verbatim>\<open>validate_event_id\<close> but never runs: \<^verbatim>\<open>event_id\<close> is validated first, when \<^verbatim>\<open>values\<close>
  has no \<^verbatim>\<open>room_id\<close> yet. An event whose id names the room \<^verbatim>\<open>other\<close> and whose
  \<^verbatim>\<open>room_id\<close> is \<^verbatim>\<open>room\<close> is accepted.
\<close>

theorem event_id_room_mismatch_accepted:
  "py_split (event_id event_other_room) ''::'' = [''other'', ''2024-01-01T00:00:00Z'', ''u1''] \<and>
   room_id event_other_room = ''room'' \<and>
   model_validate 1704067200000 event_other_room = Inr event_other_room \<and>
   validate_event_id (event_id event_other_room) [''room_id'' \<mapsto> JStr ''room''] =
     Inl EventIdRoomMismatch"
  by (simp add: model_validate_def validate_event_id_def validate_timestamp_def
      validate_event_type_def errors_of_def Let_def event_other_room_def py_split_def valid_types_def)

section \<open>Properties of the storage layout\<close>

lemma path_join_inject: "path_join p a = path_join q b \<longleftrightarrow> p = q \<and> a = b"
  by (simp add: path_join_def)

lemma get_daily_log_path_client_id:
  "get_daily_log_path self room date_str start_ts end_ts c1 =
   get_daily_log_path self room date_str start_ts end_ts c2 \<longleftrightarrow> c1 = c2"
  by (simp add: get_daily_log_path_def Let_def path_join_inject)

lemma split_from_not_empty: "split_from sep acc s \<noteq> []"
  by (induction sep acc s rule: split_from.induct) auto

lemma py_split_not_empty: "py_split s sep \<noteq> []"
  by (simp add: py_split_def split_from_not_empty)

lemma generate_client_id_plain:
  assumes "\<not> py_contains ''@'' user_id"
    and "list_all (\<lambda>c. py_isalnum c \<or> c = CHR ''_'') user_id"
  shows "generate_client_id user_id = user_id"
  using assms by (simp add: generate_client_id_def list_all_iff)

text \<open>
  C8, as amended. The segment file path is a function of the room, the day, the two
  timestamps and the client id, and for the same coordinates two writers get the same
  path exactly when their client ids are equal. The client id is the writer identity cut
  at the first \<^verbatim>\<open>@\<close> and without the characters that are neither alphanumeric nor an
  underscore: identities made of alphanumerics and underscores only never collide with
  one another.
\<close>

theorem segment_path_collision_iff:
  "(get_daily_log_path self room date_str start_ts end_ts (generate_client_id u1) =
    get_daily_log_path self room date_str start_ts end_ts (generate_client_id u2) \<longleftrightarrow>
      generate_client_id u1 = generate_client_id u2) \<and>
   (\<not> py_contains ''@'' u1 \<and> list_all (\<lambda>c. py_isalnum c \<or> c = CHR ''_'') u1 \<and>
    \<not> py_contains ''@'' u2 \<and> list_all (\<lambda>c. py_isalnum c \<or> c = CHR ''_'') u2 \<and> u1 \<noteq> u2 \<longrightarrow>
      get_daily_log_path self room date_str start_ts end_ts (generate_client_id u1) \<noteq>
      get_daily_log_path self room date_str start_ts end_ts (generate_client_id u2))"
  by (auto simp: get_daily_log_path_client_id generate_client_id_plain)

text \<open>
  Two identities with the same local part and different domains have the same client id
  and the same segment path.
\<close>

theorem segment_path_collision_counterexample:
  "''alice@example.com'' \<noteq> ''alice@example.org'' \<and>
   generate_client_id ''alice@example.com'' = ''alice'' \<and>
   generate_client_id ''alice@example.org'' = ''alice'' \<and>
   get_daily_log_path local_storage ''room'' ''2025-09-14'' 1726315200000 1726315300000
     (generate_client_id ''alice@example.com'') =
   get_daily_log_path local_storage ''room'' ''2025-09-14'' 1726315200000 1726315300000
     (generate_client_id ''alice@example.org'')"
proof -
  have "generate_client_id ''alice@example.com'' = ''alice''"
    and "generate_client_id ''alice@example.org'' = ''alice''"
    by (simp_all add: generate_client_id_def py_split_def py_isalnum_def)
  then show ?thesis by simp
qed

theorem segment_path_collision_iff_witness:
  "\<not> py_contains ''@'' ''alice_1'' \<and> list_all (\<lambda>c. py_isalnum c \<or> c = CHR ''_'') ''alice_1'' \<and>
   \<not> py_contains ''@'' ''bob'' \<and> list_all (\<lambda>c. py_isalnum c \<or> c = CHR ''_'') ''bob'' \<and>
   ''alice_1'' \<noteq> ''bob'' \<and>
   get_daily_log_path local_storage ''room'' ''2025-09-14'' 1726315200000 1726315300000
     (generate_client_id ''alice_1'') \<noteq>
   get_daily_log_path local_storage ''room'' ''2025-09-14'' 1726315200000 1726315300000
     (generate_client_id ''bob'')"
proof -
  have a: "\<not> py_contains ''@'' ''alice_1'' \<and>
      list_all (\<lambda>c. py_isalnum c \<or> c = CHR ''_'') ''alice_1'' \<and>
      \<not> py_contains ''@'' ''bob'' \<and> list_all (\<lambda>c. py_isalnum c \<or> c = CHR ''_'') ''bob'' \<and>
      ''alice_1'' \<noteq> ''bob''"
    by (simp add: py_isalnum_def)
  from segment_path_collision_iff
    [of local_storage "''room''" "''2025-09-14''" 1726315200000 1726315300000 "''alice_1''" "''bob''"] a
  show ?thesis by blast
qed

lemma mkdirs_existing:
  "\<forall>q\<in>set qs. fs q = Some Directory \<Longrightarrow> mkdirs qs fs = Inr fs"
  by (induction qs) simp_all

lemma mkdirs_result:
  "mkdirs qs fs = Inr fs' \<Longrightarrow>
     (\<forall>q\<in>set qs. fs' q = Some Directory) \<and>
     (\<forall>q. q \<notin> set qs \<longrightarrow> fs' q = fs q) \<and>
     (\<forall>q. fs q = Some Directory \<longrightarrow> fs' q = Some Directory)"
proof (induction qs arbitrary: fs)
  case Nil
  then show ?case by simp
next
  case (Cons q qs)
  show ?case
  proof (cases "fs q")
    case None
    with Cons.prems have "mkdirs qs (fs(q \<mapsto> Directory)) = Inr fs'" by simp
    from Cons.IH [OF this] show ?thesis
      by (auto simp: None)
  next
    case (Some n)
    with Cons.prems have n: "n = Directory" and "mkdirs qs fs = Inr fs'"
      by (cases n; simp)+
    from Cons.IH [OF this(2)] show ?thesis
      by (auto simp: Some n)
  qed
qed

lemma ancestors_and_self_join:
  "set (ancestors_and_self (path_join p name)) =
     insert (path_join p name) (set (ancestors_and_self p))"
proof -
  have "[1..<Suc (length (p @ [name]))] = [1..<Suc (length p)] @ [Suc (length p)]"
    by simp
  then show ?thesis
    unfolding ancestors_and_self_def path_join_def
    by (simp del: upt_Suc)
qed

lemma ancestors_and_self_length:
  "q \<in> set (ancestors_and_self p) \<Longrightarrow> length q \<le> length p"
  by (auto simp: ancestors_and_self_def)

lemma metadata_path_not_ancestor:
  "path_join room_path ''metadata.json'' \<notin>
     set (ancestors_and_self (path_join room_path ''logs''))"
proof -
  have "path_join room_path ''metadata.json'' \<notin> set (ancestors_and_self room_path)"
    by (auto dest: ancestors_and_self_length simp: path_join_def)
  then show ?thesis
    by (simp add: ancestors_and_self_join path_join_inject)
qed

lemma mkdir_parents_existing:
  "\<forall>q\<in>set (ancestors_and_self p). fs q = Some Directory \<Longrightarrow> mkdir_parents p fs = Inr fs"
  by (simp add: mkdir_parents_def mkdirs_existing)

lemma mkdir_parents_result:
  assumes "mkdir_parents p fs = Inr fs'"
  shows "\<forall>q\<in>set (ancestors_and_self p). fs' q = Some Directory"
    and "\<And>q. q \<notin> set (ancestors_and_self p) \<Longrightarrow> fs' q = fs q"
    and "\<And>q. fs q = Some Directory \<Longrightarrow> fs' q = Some Directory"
  using mkdirs_result [of "ancestors_and_self p" fs fs'] assms
  by (simp_all add: mkdir_parents_def)

lemma write_json_local_new:
  assumes "\<not> is_cloud self"
    and "\<forall>q\<in>set (ancestors_and_self room_path). fs q = Some Directory"
    and "fs (path_join room_path name) = None"
  shows "write_json self (path_join room_path name) data fs =
    (True, fs(path_join room_path name \<mapsto> JsonFile data))"
proof -
  have "butlast (path_join room_path name) = room_path"
    by (simp add: path_join_def)
  moreover have "mkdir_parents room_path fs = Inr fs"
    using assms(2) by (rule mkdir_parents_existing)
  ultimately show ?thesis
    using assms(1,3) by (simp add: write_json_def)
qed

lemma ensure_room_structure_made:
  assumes "ensure_room_structure self room now_iso fs = Inr fs1"
  shows "\<exists>fs2.
    (\<not> is_cloud self \<longrightarrow>
       (\<forall>q\<in>set (ancestors_and_self
          (path_join (path_join (path_join (base_path self) ''rooms'') room) ''logs'')).
        fs2 q = Some Directory)) \<and>
    fs2 (get_room_metadata_path self room) = fs (get_room_metadata_path self room) \<and>
    fs1 = (if fs2 (get_room_metadata_path self room) = None
           then fs2(get_room_metadata_path self room \<mapsto> JsonFile (room_metadata room now_iso))
           else fs2)"
proof (cases "is_cloud self")
  case True
  with assms have "fs1 = (if fs (get_room_metadata_path self room) = None
      then fs(get_room_metadata_path self room \<mapsto> JsonFile (room_metadata room now_iso))
      else fs)"
    by (auto simp: ensure_room_structure_def get_room_metadata_path_def file_exists_def
        write_json_def Let_def split: if_splits)
  with True show ?thesis by (intro exI [of _ fs]) simp
next
  case False
  let ?rp = "path_join (path_join (base_path self) ''rooms'') room"
  let ?lp = "path_join ?rp ''logs''"
  let ?mp = "path_join ?rp ''metadata.json''"
  from assms False obtain fsa fs2 where a: "mkdir_parents ?rp fs = Inr fsa"
    and b: "mkdir_parents ?lp fsa = Inr fs2"
    and c: "fs1 = (if fs2 ?mp = None
        then snd (write_json self ?mp (room_metadata room now_iso) fs2) else fs2)"
    by (auto simp: ensure_room_structure_def file_exists_def Let_def split: sum.splits if_splits)
  have dirs: "\<forall>q\<in>set (ancestors_and_self ?lp). fs2 q = Some Directory"
    using mkdir_parents_result(1) [OF b] .
  then have dirs_rp: "\<forall>q\<in>set (ancestors_and_self ?rp). fs2 q = Some Directory"
    by (simp add: ancestors_and_self_join)
  have m1: "?mp \<notin> set (ancestors_and_self ?lp)"
    by (rule metadata_path_not_ancestor)
  then have m2: "?mp \<notin> set (ancestors_and_self ?rp)"
    by (simp add: ancestors_and_self_join)
  have same: "fs2 ?mp = fs ?mp"
    using mkdir_parents_result(2) [OF b m1] mkdir_parents_result(2) [OF a m2] by simp
  have "fs1 = (if fs2 ?mp = None then fs2(?mp \<mapsto> JsonFile (room_metadata room now_iso)) else fs2)"
    using c write_json_local_new [OF False dirs_rp, of "''metadata.json''"] by auto
  with dirs same show ?thesis
    by (intro exI [of _ fs2]) (simp add: get_room_metadata_path_def)
qed

lemma ensure_room_structure_settled:
  assumes "is_cloud self \<or>
      (\<forall>q\<in>set (ancestors_and_self
          (path_join (path_join (path_join (base_path self) ''rooms'') room) ''logs'')).
        fs q = Some Directory)"
    and "fs (get_room_metadata_path self room) \<noteq> None"
  shows "ensure_room_structure self room now_iso fs = Inr fs"
proof (cases "is_cloud self")
  case True
  with assms(2) show ?thesis
    by (auto simp: ensure_room_structure_def get_room_metadata_path_def file_exists_def Let_def)
next
  case False
  let ?rp = "path_join (path_join (base_path self) ''rooms'') room"
  let ?lp = "path_join ?rp ''logs''"
  from False assms(1) have dirs: "\<forall>q\<in>set (ancestors_and_self ?lp). fs q = Some Directory"
    by simp
  then have "\<forall>q\<in>set (ancestors_and_self ?rp). fs q = Some Directory"
    by (simp add: ancestors_and_self_join)
  then have "mkdir_parents ?rp fs = Inr fs"
    by (rule mkdir_parents_existing)
  moreover from dirs have "mkdir_parents ?lp fs = Inr fs"
    by (rule mkdir_parents_existing)
  ultimately show ?thesis
    using False assms(2)
    by (auto simp: ensure_room_structure_def get_room_metadata_path_def file_exists_def Let_def)
qed

text \<open>
  C9. Room creation is idempotent: after a call of \<^verbatim>\<open>ensure_room_structure\<close> that
  returned, there is an object at the metadata path of the room, and a second call, at
  any later time, leaves the whole store as it is. A metadata object that was there
  before the first call is kept as it was; otherwise the first call writes the metadata
  with its own time stamp.
\<close>

theorem ensure_room_structure_idempotent:
  assumes "ensure_room_structure self room t1 fs = Inr fs1"
  shows "ensure_room_structure self room t2 fs1 = Inr fs1 \<and>
         fs1 (get_room_metadata_path self room) \<noteq> None \<and>
         fs1 (get_room_metadata_path self room) =
           (case fs (get_room_metadata_path self room) of
              None \<Rightarrow> Some (JsonFile (room_metadata room t1))
            | Some existing \<Rightarrow> Some existing)"
proof -
  let ?lp = "path_join (path_join (path_join (base_path self) ''rooms'') room) ''logs''"
  let ?mp = "get_room_metadata_path self room"
  from assms obtain fs2 where
    dirs: "\<not> is_cloud self \<Longrightarrow> \<forall>q\<in>set (ancestors_and_self ?lp). fs2 q = Some Directory"
    and same: "fs2 ?mp = fs ?mp"
    and fs1: "fs1 = (if fs2 ?mp = None then fs2(?mp \<mapsto> JsonFile (room_metadata room t1)) else fs2)"
    using ensure_room_structure_made [of self room t1 fs fs1] by blast
  have "?mp \<notin> set (ancestors_and_self ?lp)"
    unfolding get_room_metadata_path_def by (rule metadata_path_not_ancestor)
  with dirs fs1 have "is_cloud self \<or> (\<forall>q\<in>set (ancestors_and_self ?lp). fs1 q = Some Directory)"
    by auto
  moreover from fs1 have exists: "fs1 ?mp \<noteq> None"
    by auto
  ultimately have "ensure_room_structure self room t2 fs1 = Inr fs1"
    by (rule ensure_room_structure_settled)
  moreover from fs1 same have "fs1 ?mp =
      (case fs ?mp of None \<Rightarrow> Some (JsonFile (room_metadata room t1)) | Some existing \<Rightarrow> Some existing)"
    by (auto split: option.splits)
  ultimately show ?thesis
    using exists by simp
qed

theorem ensure_room_structure_idempotent_witness:
  "ensure_room_structure local_storage ''room'' ''2025-09-14T10:00:00'' Map.empty =
     Inr [[''data''] \<mapsto> Directory, [''data'', ''rooms''] \<mapsto> Directory,
          [''data'', ''rooms'', ''room''] \<mapsto> Directory,
          [''data'', ''rooms'', ''room'', ''logs''] \<mapsto> Directory,
          [''data'', ''rooms'', ''room'', ''metadata.json''] \<mapsto>
            JsonFile (room_metadata ''room'' ''2025-09-14T10:00:00'')] \<and>
   ensure_room_structure local_storage ''room'' ''2025-09-15T11:30:00''
     [[''data''] \<mapsto> Directory, [''data'', ''rooms''] \<mapsto> Directory,
      [''data'', ''rooms'', ''room''] \<mapsto> Directory,
      [''data'', ''rooms'', ''room'', ''logs''] \<mapsto> Directory,
      [''data'', ''rooms'', ''room'', ''metadata.json''] \<mapsto>
        JsonFile (room_metadata ''room'' ''2025-09-14T10:00:00'')] =
     Inr [[''data''] \<mapsto> Directory, [''data'', ''rooms''] \<mapsto> Directory,
          [''data'', ''rooms'', ''room''] \<mapsto> Directory,
          [''data'', ''rooms'', ''room'', ''logs''] \<mapsto> Directory,
          [''data'', ''rooms'', ''room'', ''metadata.json''] \<mapsto>
            JsonFile (room_metadata ''room'' ''2025-09-14T10:00:00'')]"
proof -
  let ?fs1 = "[[''data''] \<mapsto> Directory, [''data'', ''rooms''] \<mapsto> Directory,
          [''data'', ''rooms'', ''room''] \<mapsto> Directory,
          [''data'', ''rooms'', ''room'', ''logs''] \<mapsto> Directory,
          [''data'', ''rooms'', ''room'', ''metadata.json''] \<mapsto>
            JsonFile (room_metadata ''room'' ''2025-09-14T10:00:00'')]"
  have first: "ensure_room_structure local_storage ''room'' ''2025-09-14T10:00:00'' Map.empty =
      Inr ?fs1"
    by (simp add: ensure_room_structure_def local_storage_def path_join_def mkdir_parents_def
        ancestors_and_self_def file_exists_def write_json_def Let_def upt_rec)
  from ensure_room_structure_idempotent [OF first, of "''2025-09-15T11:30:00''"] first
  show ?thesis by simp
qed

section \<open>Properties of the JSON lines\<close>

lemma hex_value_digit_char: "d < 16 \<Longrightarrow> hex_value (digit_char d) = Some d"
proof -
  assume "d < 16"
  then have "d = 0 \<or> d = 1 \<or> d = 2 \<or> d = 3 \<or> d = 4 \<or> d = 5 \<or> d = 6 \<or> d = 7 \<or> d = 8 \<or> d = 9 \<or>
      d = 10 \<or> d = 11 \<or> d = 12 \<or> d = 13 \<or> d = 14 \<or> d = 15"
    by arith
  then show ?thesis
    by (elim disjE) (simp_all add: hex_value_def digit_char_def)
qed

lemma unicode_escape_hex4:
  assumes "n < 256"
  shows "unicode_escape (digit_char (n div 4096 mod 16)) (digit_char (n div 256 mod 16))
           (digit_char (n div 16 mod 16)) (digit_char (n mod 16)) = Some (char_of n)"
proof -
  from assms have a: "n div 4096 = 0" "n div 256 = 0"
    by simp_all
  from assms have "n div 16 < 16"
    by arith
  then have b: "n div 16 mod 16 = n div 16"
    by simp
  have h2: "hex_value (digit_char 0) = Some 0"
    by (rule hex_value_digit_char) simp
  have h1: "hex_value (digit_char (n div 16)) = Some (n div 16)"
    using \<open>n div 16 < 16\<close> by (rule hex_value_digit_char)
  have h0: "hex_value (digit_char (n mod 16)) = Some (n mod 16)"
    by (rule hex_value_digit_char) simp
  have c: "n div 16 * 16 + n mod 16 = n"
    by simp
  show ?thesis
    unfolding a b unicode_escape_def by (simp add: h2 h1 h0 c assms)
qed

lemma read_string_unicode:
  assumes "(of_char c :: nat) < 32"
  shows "read_string acc (CHR 0x5C # CHR ''u'' # hex4 (of_char c) @ rest) = read_string (c # acc) rest"
proof -
  from assms have "(of_char c :: nat) < 256" by simp
  from unicode_escape_hex4 [OF this] show ?thesis
    by (simp add: hex4_def)
qed

lemma read_string_escape:
  "read_string acc (escape_json_char c @ rest) = read_string (c # acc) rest"
proof (cases "(of_char c :: nat) < 32")
  case True
  show ?thesis
  proof (cases "c \<in> {CHR 0x08, CHR 0x0C, CHR 0x0A, CHR 0x0D, CHR 0x09}")
    case True
    then show ?thesis
      by (auto simp: escape_json_char_def unescape_def)
  next
    case False
    from \<open>of_char c < 32\<close> have "c \<noteq> CHR 0x22" and "c \<noteq> CHR 0x5C"
      by auto
    with False \<open>of_char c < 32\<close> show ?thesis
      by (simp add: escape_json_char_def read_string_unicode del: read_string.simps)
  qed
next
  case False
  then show ?thesis
    by (auto simp: escape_json_char_def unescape_def)
qed

lemma read_string_escaped:
  "read_string acc (concat (map escape_json_char s) @ CHR 0x22 # rest) = Some (rev acc @ s, rest)"
proof (induction s arbitrary: acc)
  case Nil
  show ?case by simp
next
  case (Cons c s)
  show ?case
    by (simp add: read_string_escape Cons.IH del: read_string.simps)
qed

lemma read_json_string:
  "read_string [] (tl (json_string s @ rest)) = Some (s, rest)"
  using read_string_escaped [of "[]" s rest] by (simp add: json_string_def)

lemma digit_char_decimal:
  assumes "d < 10"
  shows "is_digit (digit_char d)" and "(of_char (digit_char d) :: nat) - 48 = d"
    and "digit_char d = CHR ''0'' \<longleftrightarrow> d = 0"
proof -
  from assms have "d = 0 \<or> d = 1 \<or> d = 2 \<or> d = 3 \<or> d = 4 \<or> d = 5 \<or> d = 6 \<or> d = 7 \<or> d = 8 \<or> d = 9"
    by arith
  then show "is_digit (digit_char d)" and "(of_char (digit_char d) :: nat) - 48 = d"
    and "digit_char d = CHR ''0'' \<longleftrightarrow> d = 0"
    by (elim disjE; simp add: is_digit_def digit_char_def)+
qed

lemma nat_digits_not_empty: "nat_digits n \<noteq> []"
  by (subst nat_digits.simps) (simp del: nat_digits.simps)

lemma nat_digits_are_digits: "c \<in> set (nat_digits n) \<Longrightarrow> is_digit c"
proof (induction n arbitrary: c rule: nat_digits.induct)
  case (1 n)
  show ?case
  proof (cases "n < 10")
    case True
    with "1.prems" show ?thesis
      by (subst (asm) nat_digits.simps) (simp add: digit_char_decimal del: nat_digits.simps)
  next
    case False
    with "1.prems" have "c \<in> set (nat_digits (n div 10)) \<or> c = digit_char (n mod 10)"
      by (subst (asm) nat_digits.simps) (auto simp del: nat_digits.simps)
    with False "1.IH" show ?thesis
      by (auto simp: digit_char_decimal simp del: nat_digits.simps)
  qed
qed

lemma digits_value_snoc:
  "digits_value (ds @ [d]) = 10 * digits_value ds + (of_char d - 48)"
  by (simp add: digits_value_def)

lemma digits_value_nat_digits: "digits_value (nat_digits n) = n"
proof (induction n rule: nat_digits.induct)
  case (1 n)
  show ?case
  proof (cases "n < 10")
    case True
    then show ?thesis
      by (subst nat_digits.simps) (simp add: digits_value_def digit_char_decimal del: nat_digits.simps)
  next
    case False
    with "1.IH" show ?thesis
      by (subst nat_digits.simps) (simp add: digits_value_snoc digit_char_decimal del: nat_digits.simps)
  qed
qed

lemma nat_digits_leading_zero: "hd (nat_digits n) = CHR ''0'' \<Longrightarrow> n = 0"
proof (induction n rule: nat_digits.induct)
  case (1 n)
  show ?case
  proof (cases "n < 10")
    case True
    with "1.prems" show ?thesis
      by (subst (asm) nat_digits.simps) (simp add: digit_char_decimal del: nat_digits.simps)
  next
    case False
    with "1.prems" have "hd (nat_digits (n div 10)) = CHR ''0''"
      by (subst (asm) nat_digits.simps) (simp add: nat_digits_not_empty del: nat_digits.simps)
    with False "1.IH" have "n div 10 = 0" by (simp del: nat_digits.simps)
    with False show ?thesis by simp
  qed
qed

lemma nat_digits_length_zero: "length (nat_digits 0) = 1"
  by simp

lemma ends_value_not_digit:
  assumes "ends_value rest"
  shows "takeWhile is_digit rest = []" and "dropWhile is_digit rest = rest"
    and "rest = [] \<or> (hd rest \<noteq> CHR ''.'' \<and> hd rest \<noteq> CHR ''e'' \<and> hd rest \<noteq> CHR ''E'')"
  using assms by (cases rest; auto simp: ends_value_def is_digit_def)+

lemma read_int_digits:
  assumes digits: "\<forall>c\<in>set ds. is_digit c" and "ds \<noteq> []"
    and zero: "hd ds = CHR ''0'' \<longrightarrow> length ds = 1"
    and "ends_value rest"
  shows "read_int (ds @ rest) = Some (int (digits_value ds), rest)"
    and "read_int (CHR ''-'' # ds @ rest) = Some (- int (digits_value ds), rest)"
proof -
  note e = ends_value_not_digit [OF \<open>ends_value rest\<close>]
  from digits have t: "takeWhile is_digit (ds @ rest) = ds"
    and d: "dropWhile is_digit (ds @ rest) = rest"
    by (simp_all add: e)
  from digits \<open>ds \<noteq> []\<close> have "is_digit (hd ds)" by simp
  then have "hd ds \<noteq> CHR ''-''"
    by (auto simp: is_digit_def)
  with \<open>ds \<noteq> []\<close> have h: "hd (ds @ rest) \<noteq> CHR ''-''" by simp
  from zero have z: "\<not> (hd ds = CHR ''0'' \<and> 1 < length ds)" by auto
  show "read_int (ds @ rest) = Some (int (digits_value ds), rest)"
    using \<open>ds \<noteq> []\<close> h z e(3) by (auto simp: read_int_def Let_def t d)
  show "read_int (CHR ''-'' # ds @ rest) = Some (- int (digits_value ds), rest)"
    using \<open>ds \<noteq> []\<close> z e(3) by (auto simp: read_int_def Let_def t d)
qed

lemma read_int_repr:
  assumes "ends_value rest"
  shows "read_int (int_repr i @ rest) = Some (i, rest)"
proof -
  have ok: "\<forall>c\<in>set (nat_digits n). is_digit c" "nat_digits n \<noteq> []"
    "hd (nat_digits n) = CHR ''0'' \<longrightarrow> length (nat_digits n) = 1" for n
    using nat_digits_leading_zero [of n] nat_digits_length_zero
    by (auto simp: nat_digits_are_digits nat_digits_not_empty simp del: nat_digits.simps)
  show ?thesis
    using read_int_digits [OF ok assms]
    by (simp add: int_repr_def digits_value_nat_digits del: nat_digits.simps)
qed

lemma int_repr_first:
  "\<exists>c cs. int_repr i = c # cs \<and> (c = CHR ''-'' \<or> is_digit c)"
proof -
  have "\<exists>c cs. nat_digits n = c # cs \<and> is_digit c" for n
    using nat_digits_not_empty [of n] nat_digits_are_digits [of _ n]
    by (cases "nat_digits n") (auto simp del: nat_digits.simps)
  from this [of "nat i"] this [of "nat (- i)"] show ?thesis
    unfolding int_repr_def by (cases "i < 0") (simp_all only: if_True if_False, blast+)
qed

lemma skip_ws_start: "\<not> json_ws c \<Longrightarrow> skip_ws (c # cs) = c # cs"
  by (simp add: skip_ws_def)

lemma read_value_string:
  "read_value (Suc n) (CHR 0x22 # cs) =
     (case read_string [] cs of None \<Rightarrow> None | Some (x, r) \<Rightarrow> Some (JStr x, r))"
  by (simp add: skip_ws_def json_ws_def)

lemma read_value_literals:
  "read_value (Suc n) (''null'' @ rest) = Some (JNull, rest)"
  "read_value (Suc n) (''true'' @ rest) = Some (JBool True, rest)"
  "read_value (Suc n) (''false'' @ rest) = Some (JBool False, rest)"
  by (simp_all add: skip_ws_def json_ws_def)

lemma read_value_int:
  assumes "c = CHR ''-'' \<or> is_digit c"
  shows "read_value (Suc n) (c # cs) =
     (case read_int (c # cs) of None \<Rightarrow> None | Some (i, r) \<Rightarrow> Some (JInt i, r))"
proof -
  from assms have "\<not> json_ws c" "c \<noteq> CHR 0x22" "c \<noteq> CHR ''[''" "c \<noteq> CHR ''{''"
    "c \<noteq> CHR ''n''" "c \<noteq> CHR ''t''" "c \<noteq> CHR ''f''"
    by (auto simp: is_digit_def json_ws_def)
  then show ?thesis
    by (simp add: skip_ws_start)
qed

lemma read_value_array_empty:
  "read_value (Suc n) (CHR ''['' # CHR '']'' # rest) = Some (JArr [], rest)"
  by (simp add: skip_ws_def json_ws_def)

lemma read_value_array:
  assumes "\<not> json_ws d" and "d \<noteq> CHR '']''"
  shows "read_value (Suc n) (CHR ''['' # d # ds) =
     (case read_elements n [] (d # ds) of None \<Rightarrow> None | Some (vs, r) \<Rightarrow> Some (JArr vs, r))"
  using assms by (simp add: skip_ws_def json_ws_def)

lemma read_value_object_empty:
  "read_value (Suc n) (CHR ''{'' # CHR ''}'' # rest) = Some (JObj [], rest)"
  by (simp add: skip_ws_def json_ws_def)

lemma read_value_object:
  assumes "\<not> json_ws d" and "d \<noteq> CHR ''}''"
  shows "read_value (Suc n) (CHR ''{'' # d # ds) =
     (case read_members n [] (d # ds) of None \<Rightarrow> None | Some (kvs, r) \<Rightarrow> Some (JObj kvs, r))"
  using assms by (simp add: skip_ws_def json_ws_def)

lemma read_elements_step:
  assumes "read_value n s = Some (v, r)"
  shows "r = CHR '','' # cs \<Longrightarrow> read_elements (Suc n) acc s = read_elements n (acc @ [v]) cs"
    and "r = CHR '']'' # cs \<Longrightarrow> read_elements (Suc n) acc s = Some (acc @ [v], cs)"
  using assms by (simp_all add: skip_ws_def json_ws_def)

lemma read_members_step:
  assumes "read_string [] s1 = Some (k, CHR '':'' # s3)"
    and "read_value n s3 = Some (v, r)"
  shows "r = CHR '','' # cs \<Longrightarrow>
      read_members (Suc n) acc (CHR 0x22 # s1) = read_members n (dict_setitem k v acc) cs"
    and "r = CHR ''}'' # cs \<Longrightarrow>
      read_members (Suc n) acc (CHR 0x22 # s1) = Some (dict_setitem k v acc, cs)"
  using assms by (simp_all add: skip_ws_def json_ws_def)

lemma to_json_first:
  "\<exists>c cs. to_json v = c # cs \<and> \<not> json_ws c \<and> c \<noteq> CHR '']'' \<and> c \<noteq> CHR ''}''"
proof (cases v)
  case (JInt i)
  from int_repr_first [of i] show ?thesis
    unfolding JInt by (auto simp: is_digit_def json_ws_def)
qed (auto simp: json_string_def json_ws_def)

lemma to_json_not_empty: "0 < length (to_json v)"
  using to_json_first [of v] by auto

lemma read_elements_join:
  assumes "\<And>v n rest. v \<in> set vs \<Longrightarrow> ends_value rest \<Longrightarrow> length (to_json v) \<le> n \<Longrightarrow>
      read_value n (to_json v @ rest) = Some (v, rest)"
    and "vs \<noteq> []" and "length (join '','' (map to_json vs)) < n"
  shows "read_elements n acc (join '','' (map to_json vs) @ CHR '']'' # rest) = Some (acc @ vs, rest)"
  using assms
proof (induction vs arbitrary: n acc)
  case Nil
  then show ?case by simp
next
  case (Cons v vs)
  from Cons.prems(3) obtain m where n: "n = Suc m"
    by (cases n) auto
  show ?case
  proof (cases vs)
    case Nil
    with Cons.prems(3) n have "length (to_json v) \<le> m" by simp
    then have "read_value m (to_json v @ CHR '']'' # rest) = Some (v, CHR '']'' # rest)"
      by (intro Cons.prems(1)) (simp_all add: ends_value_def)
    from read_elements_step(2) [OF this refl] show ?thesis
      by (simp add: Nil n del: read_value.simps read_elements.simps)
  next
    case (Cons w ws)
    let ?tail = "join '','' (map to_json vs) @ CHR '']'' # rest"
    from Cons.prems(3) n Cons have len: "length (to_json v) + length (join '','' (map to_json vs)) < m"
      by simp
    then have "read_value m (to_json v @ CHR '','' # ?tail) = Some (v, CHR '','' # ?tail)"
      by (intro Cons.prems(1)) (simp_all add: ends_value_def)
    from read_elements_step(1) [OF this refl]
    have "read_elements n acc (to_json v @ CHR '','' # ?tail) = read_elements m (acc @ [v]) ?tail"
      by (simp add: n)
    also have "\<dots> = Some ((acc @ [v]) @ vs, rest)"
    proof (rule Cons.IH)
      show "vs \<noteq> []" by (simp add: Cons)
      show "length (join '','' (map to_json vs)) < m" using len by simp
      show "read_value n (to_json u @ rest) = Some (u, rest)"
        if "u \<in> set vs" "ends_value rest" "length (to_json u) \<le> n" for u n rest
        using that by (intro Cons.prems(1)) simp_all
    qed
    finally show ?thesis
      by (simp add: Cons del: read_value.simps read_elements.simps)
  qed
qed


lemma json_member_read:
  assumes "read_value m (to_json v @ r) = Some (v, r)"
  shows "\<exists>s1. json_member (k, v) @ r = CHR 0x22 # s1 \<and>
           read_string [] s1 = Some (k, CHR '':'' # to_json v @ r)"
  using read_string_escaped [of "[]" k "CHR '':'' # to_json v @ r"]
  by (simp add: json_member_def json_string_def)

lemma read_members_join:
  assumes "\<And>k v n rest. (k, v) \<in> set kvs \<Longrightarrow> ends_value rest \<Longrightarrow> length (to_json v) \<le> n \<Longrightarrow>
      read_value n (to_json v @ rest) = Some (v, rest)"
    and "kvs \<noteq> []" and "length (join '','' (map json_member kvs)) < n"
    and "distinct (map fst (acc @ kvs))"
  shows "read_members n acc (join '','' (map json_member kvs) @ CHR ''}'' # rest) =
    Some (acc @ kvs, rest)"
  using assms
proof (induction kvs arbitrary: n acc)
  case Nil
  then show ?case by simp
next
  case (Cons kv kvs)
  obtain k v where kv: "kv = (k, v)" by (cases kv)
  from Cons.prems(3) obtain m where n: "n = Suc m"
    by (cases n) auto
  from Cons.prems(4) have fresh: "dict_setitem k v acc = acc @ [(k, v)]"
    by (intro dict_setitem_fresh) (auto simp: kv)
  have member_length: "length (to_json v) < length (json_member (k, v))"
    by (simp add: json_member_def)
  show ?case
  proof (cases kvs)
    case Nil
    with Cons.prems(3) n member_length have "length (to_json v) \<le> m"
      by (simp add: kv)
    then have rv: "read_value m (to_json v @ CHR ''}'' # rest) = Some (v, CHR ''}'' # rest)"
      by (intro Cons.prems(1) [of k]) (simp_all add: ends_value_def kv)
    from json_member_read [OF rv, of k] obtain s1
      where s1: "json_member (k, v) @ CHR ''}'' # rest = CHR 0x22 # s1"
        and key: "read_string [] s1 = Some (k, CHR '':'' # to_json v @ CHR ''}'' # rest)"
      by blast
    from read_members_step(2) [OF key rv refl, of acc] show ?thesis
      by (simp add: Nil n kv fresh s1 [symmetric] del: read_value.simps read_members.simps)
  next
    case (Cons kv' kvs')
    let ?tail = "join '','' (map json_member kvs) @ CHR ''}'' # rest"
    from Cons.prems(3) n Cons
    have len: "length (json_member (k, v)) + length (join '','' (map json_member kvs)) < m"
      by (simp add: kv)
    with member_length
    have rv: "read_value m (to_json v @ CHR '','' # ?tail) = Some (v, CHR '','' # ?tail)"
      by (intro Cons.prems(1) [of k]) (simp_all add: ends_value_def kv)
    from json_member_read [OF rv, of k] obtain s1
      where s1: "json_member (k, v) @ CHR '','' # ?tail = CHR 0x22 # s1"
        and key: "read_string [] s1 = Some (k, CHR '':'' # to_json v @ CHR '','' # ?tail)"
      by blast
    from read_members_step(1) [OF key rv refl, of acc]
    have "read_members n acc (json_member (k, v) @ CHR '','' # ?tail) =
        read_members m (acc @ [(k, v)]) ?tail"
      by (simp add: n fresh s1 [symmetric] del: read_value.simps read_members.simps)
    also have "\<dots> = Some ((acc @ [(k, v)]) @ kvs, rest)"
    proof (rule Cons.IH)
      show "kvs \<noteq> []" by (simp add: Cons)
      show "length (join '','' (map json_member kvs)) < m" using len by simp
      show "distinct (map fst ((acc @ [(k, v)]) @ kvs))"
        using Cons.prems(4) by (simp add: kv)
      show "read_value n (to_json u @ rest) = Some (u, rest)"
        if "(j, u) \<in> set kvs" "ends_value rest" "length (to_json u) \<le> n" for j u n rest
        using that by (intro Cons.prems(1) [of j]) simp_all
    qed
    finally show ?thesis
      by (simp add: Cons kv del: read_value.simps read_members.simps)
  qed
qed

lemma to_json_object:
  "to_json (JObj kvs) = CHR ''{'' # join '','' (map json_member kvs) @ ''}''"
  by (simp add: json_member_def [abs_def])

lemma join_first:
  "xs \<noteq> [] \<Longrightarrow> hd xs \<noteq> [] \<Longrightarrow> \<exists>cs. join sep xs = hd (hd xs) # cs"
  by (cases xs; cases "tl xs") (auto simp: neq_Nil_conv)

lemma read_value_to_json:
  "wf_json v \<Longrightarrow> ends_value rest \<Longrightarrow> length (to_json v) \<le> n \<Longrightarrow>
     read_value n (to_json v @ rest) = Some (v, rest)"
proof (induction v arbitrary: n rest)
  case JNull
  from JNull.prems(3) to_json_not_empty [of JNull] obtain m where "n = Suc m"
    by (cases n) (simp_all del: to_json.simps)
  then show ?case
    using read_value_literals(1) [of m rest] by (simp del: read_value.simps)
next
  case (JBool b)
  from JBool.prems(3) to_json_not_empty [of "JBool b"] obtain m where "n = Suc m"
    by (cases n) (simp_all del: to_json.simps)
  then show ?case
    using read_value_literals(2,3) [of m rest] by (simp del: read_value.simps)
next
  case (JInt i)
  from JInt.prems(3) to_json_not_empty [of "JInt i"] obtain m where n: "n = Suc m"
    by (cases n) (simp_all del: to_json.simps)
  from int_repr_first [of i] obtain c cs where c: "int_repr i = c # cs" "c = CHR ''-'' \<or> is_digit c"
    by blast
  from read_value_int [OF c(2), of m "cs @ rest"] read_int_repr [OF JInt.prems(2), of i]
  show ?case
    by (simp add: n c(1) del: read_value.simps)
next
  case (JStr s)
  from JStr.prems(3) to_json_not_empty [of "JStr s"] obtain m where n: "n = Suc m"
    by (cases n) (simp_all del: to_json.simps)
  from read_string_escaped [of "[]" s rest] show ?case
    by (simp add: n json_string_def read_value_string del: read_value.simps)
next
  case (JArr vs)
  from JArr.prems(3) to_json_not_empty [of "JArr vs"] obtain m where n: "n = Suc m"
    by (cases n) (simp_all del: to_json.simps)
  show ?case
  proof (cases "vs = []")
    case True
    then show ?thesis
      by (simp add: n read_value_array_empty del: read_value.simps)
  next
    case False
    let ?body = "join '','' (map to_json vs)"
    from False obtain v vs' where vs: "vs = v # vs'" by (cases vs) auto
    from to_json_first [of v] obtain d ds where d: "to_json v = d # ds"
      "\<not> json_ws d" "d \<noteq> CHR '']''"
      by blast
    with join_first [of "map to_json vs" "'',''"] vs obtain bs where body: "?body = d # bs"
      by auto
    have "read_elements m [] (?body @ CHR '']'' # rest) = Some ([] @ vs, rest)"
    proof (rule read_elements_join)
      show "vs \<noteq> []" by fact
      show "length ?body < m" using JArr.prems(3) n by simp
      show "read_value n (to_json u @ rest) = Some (u, rest)"
        if "u \<in> set vs" "ends_value rest" "length (to_json u) \<le> n" for u n rest
        using that JArr.prems(1) by (intro JArr.IH) auto
    qed
    with read_value_array [OF d(2,3), of m "bs @ CHR '']'' # rest"] show ?thesis
      by (simp add: n body del: read_value.simps read_elements.simps)
  qed
next
  case (JObj kvs)
  from JObj.prems(3) to_json_not_empty [of "JObj kvs"] obtain m where n: "n = Suc m"
    by (cases n) (simp_all del: to_json.simps)
  show ?case
  proof (cases "kvs = []")
    case True
    then show ?thesis
      by (simp add: n read_value_object_empty del: read_value.simps)
  next
    case False
    let ?body = "join '','' (map json_member kvs)"
    from False obtain kv kvs' where kvs: "kvs = kv # kvs'" by (cases kvs) auto
    obtain t where "json_member kv = CHR 0x22 # t"
      by (simp add: json_member_def json_string_def)
    then have "hd (map json_member kvs) \<noteq> []" and "hd (hd (map json_member kvs)) = CHR 0x22"
      by (simp_all add: kvs)
    with join_first [of "map json_member kvs" "'',''"] False
    obtain bs where body: "?body = CHR 0x22 # bs"
      by auto
    have "read_members m [] (?body @ CHR ''}'' # rest) = Some ([] @ kvs, rest)"
    proof (rule read_members_join)
      show "kvs \<noteq> []" by fact
      show "length ?body < m"
        using JObj.prems(3) n by (simp add: to_json_object del: to_json.simps)
      show "distinct (map fst ([] @ kvs))" using JObj.prems(1) by simp
      show "read_value n (to_json u @ rest) = Some (u, rest)"
        if "(k, u) \<in> set kvs" "ends_value rest" "length (to_json u) \<le> n" for k u n rest
        using that JObj.prems(1) by (intro JObj.IH [of "(k, u)"]) auto
    qed
    with read_value_object [of "CHR 0x22" m "bs @ CHR ''}'' # rest"] show ?thesis
      by (simp add: n body to_json_object json_ws_def del: read_value.simps read_members.simps to_json.simps)
  qed
qed

lemma json_loads_to_json: "wf_json v \<Longrightarrow> json_loads (to_json v) = Some v"
  using read_value_to_json [of v "[]" "Suc (length (to_json v))"]
  by (simp add: json_loads_def ends_value_def skip_ws_def del: read_value.simps)

lemma py_strip_object_line:
  "py_strip (to_json (JObj kvs) @ [CHR 0x0A]) = to_json (JObj kvs)"
proof -
  let ?body = "join '','' (map json_member kvs)"
  have a: "\<not> py_isspace (CHR ''{'')" and b: "\<not> py_isspace (CHR ''}'')"
    and c: "py_isspace (CHR 0x0A)"
    by (simp_all add: py_isspace_def)
  have "py_strip (CHR ''{'' # ?body @ [CHR ''}'', CHR 0x0A]) = CHR ''{'' # ?body @ [CHR ''}'']"
    by (simp add: py_strip_def a b c)
  then show ?thesis
    by (simp add: to_json_object del: to_json.simps)
qed

lemma model_validate_object_dump:
  "model_validate_object now_ms (model_dump r) =
     (case model_validate now_ms r of Inl errors \<Rightarrow> Inl ValidationError | Inr event \<Rightarrow> Inr event)"
proof -
  have fields:
    "str_field (model_dump r) ''event_id'' = Inr (event_id r)"
    "str_field (model_dump r) ''room_id'' = Inr (room_id r)"
    "int_field (model_dump r) ''timestamp_ms'' = Inr (timestamp_ms r)"
    "str_field (model_dump r) ''sender_id'' = Inr (sender_id r)"
    "str_field (model_dump r) ''type'' = Inr (type r)"
    "opt_str_field (model_dump r) ''parent_event_id'' = Inr (parent_event_id r)"
    "opt_str_field (model_dump r) ''prev_event_hash'' = Inr (prev_event_hash r)"
    "str_field (model_dump r) ''signature'' = Inr (signature r)"
    "dict_field (model_dump r) ''content'' = Inr (content r)"
    by (simp_all add: model_dump_def str_field_def int_field_def opt_str_field_def dict_field_def
        opt_str_def split: option.splits)
  have "\<lparr>event_id = event_id r, room_id = room_id r, timestamp_ms = timestamp_ms r,
         sender_id = sender_id r, type = type r, parent_event_id = parent_event_id r,
         prev_event_hash = prev_event_hash r, signature = signature r, content = content r\<rparr> = r"
    by simp
  then show ?thesis
    unfolding model_validate_object_def bind_field_def fields by (simp only: sum.case)
qed

lemma wf_json_model_dump:
  "wf_json (JObj (content r)) \<Longrightarrow> wf_json (JObj (model_dump r))"
  by (cases "parent_event_id r"; cases "prev_event_hash r")
    (simp_all add: model_dump_def opt_str_def)

lemma model_validate_later:
  "model_validate now0 r = Inr r \<Longrightarrow> now0 \<le> now1 \<Longrightarrow> model_validate now1 r = Inr r"
  by (auto simp: model_validate_accepts_iff)

text \<open>
  C7. Serialization round trip: a valid record, written by \<^verbatim>\<open>to_jsonl_line\<close> and read
  back by \<^verbatim>\<open>from_jsonl_line\<close> at the same or a later time, is the same record, field
  for field. (The content is a Python dictionary: no key twice, at any depth.)
\<close>

theorem jsonl_round_trip:
  assumes "model_validate now0 r = Inr r" and "now0 \<le> now1" and "wf_json (JObj (content r))"
  shows "from_jsonl_line now1 (to_jsonl_line r) = Inr r"
proof -
  have "py_strip (to_jsonl_line r) = to_json (JObj (model_dump r))"
    unfolding to_jsonl_line_def model_dump_json_def by (rule py_strip_object_line)
  moreover have "json_loads (to_json (JObj (model_dump r))) = Some (JObj (model_dump r))"
    using assms(3) by (intro json_loads_to_json wf_json_model_dump)
  moreover have "model_validate now1 r = Inr r"
    using assms(1,2) by (rule model_validate_later)
  ultimately show ?thesis
    by (simp add: from_jsonl_line_def model_validate_json_def model_validate_object_dump)
qed

theorem jsonl_round_trip_witness:
  "model_validate 1704067200000 event_other_room = Inr event_other_room \<and>
   (1704067200000 :: int) \<le> 1704067260000 \<and>
   wf_json (JObj (content event_other_room)) \<and>
   from_jsonl_line 1704067260000 (to_jsonl_line event_other_room) = Inr event_other_room"
proof -
  have a: "model_validate 1704067200000 event_other_room = Inr event_other_room"
    by (simp add: model_validate_def validate_event_id_def validate_timestamp_def
      validate_event_type_def errors_of_def Let_def event_other_room_def py_split_def valid_types_def)
  have b: "(1704067200000 :: int) \<le> 1704067260000" by simp
  have c: "wf_json (JObj (content event_other_room))"
    by (simp add: event_other_room_def)
  from jsonl_round_trip [OF a b c] a b c show ?thesis by simp
qed

end
